theory Spec2Isabelle
  imports Main "HOL-Library.Word" "HOL-Library.AList"
begin

text \<open>
  A model of \<open>index.js\<close> and \<open>schemas/insights.schema.js\<close>: the pipeline that takes an
  uploaded recording through transcription and insight generation, the reprocess handler,
  the outline extractor, and the two schemas. Line numbers are those of \<open>index.js\<close>
  unless the other file is named.
\<close>

section \<open>JavaScript strings\<close>

text \<open>
  A JavaScript string is a sequence of UTF-16 code units, and \<open>.length\<close> counts code
  units. String literals of the source are ASCII and are written with \<open>js\<close>.
\<close>

type_synonym jschar = "16 word"
type_synonym jsstring = "jschar list"

definition js :: "string \<Rightarrow> jsstring" where
  "js s = map of_char s"

text \<open>
  The code units removed by \<open>String.prototype.trim\<close> and matched by \<open>\s\<close> in a regular
  expression: ECMAScript WhiteSpace and LineTerminator.
\<close>

definition is_ws :: "jschar \<Rightarrow> bool" where
  "is_ws c = (c = 0x09 \<or> c = 0x0A \<or> c = 0x0B \<or> c = 0x0C \<or> c = 0x0D \<or> c = 0x20
     \<or> c = 0xA0 \<or> c = 0x1680 \<or> (0x2000 \<le> c \<and> c \<le> 0x200A)
     \<or> c = 0x2028 \<or> c = 0x2029 \<or> c = 0x202F \<or> c = 0x205F \<or> c = 0x3000 \<or> c = 0xFEFF)"

definition trim :: "jsstring \<Rightarrow> jsstring" where
  "trim s = rev (dropWhile is_ws (rev (dropWhile is_ws s)))"

definition startsWith :: "jsstring \<Rightarrow> jsstring \<Rightarrow> bool" where
  "startsWith s p = (take (length p) s = p)"

definition endsWith :: "jsstring \<Rightarrow> jsstring \<Rightarrow> bool" where
  "endsWith s p = (length p \<le> length s \<and> drop (length s - length p) s = p)"

section \<open>Stripping code fences from model output\<close>

text \<open>
  Lines 507 to 512 of \<open>index.js\<close>, inside \<open>generateInsightsFromTranscript\<close>:
  \<^verbatim>\<open>
  raw = raw.trim();
  if (raw.startsWith("```")) {
    raw = raw.replace(/^```(?:json)?\s*/i, "");
    raw = raw.replace(/\s*```$/, "");
  }
  \<close>
  The first pattern is anchored at the start and each of its parts is greedy with nothing
  after it that could force backtracking: the three backquotes, then the four letters
  \<open>json\<close> in either case when they are there, then all white space that follows.
  The second pattern has no flag, so \<open>$\<close> is the end of the text; a backquote is not
  white space, so the leftmost match is the longest run of white space that ends where the
  closing three backquotes begin.
\<close>

definition backquote :: jschar where
  "backquote = 0x60"

definition fence :: jsstring where
  "fence = [backquote, backquote, backquote]"

definition ci_letter :: "jschar \<Rightarrow> jschar \<Rightarrow> bool" where
  \<comment> \<open>flag \<open>i\<close>: a lower-case ASCII letter of the pattern matches itself and its capital\<close>
  "ci_letter l c = (c = l \<or> c = l - 0x20)"

definition ci_json :: "jsstring \<Rightarrow> bool" where
  "ci_json s = (case s of
       a # b # c # d # _ \<Rightarrow>
         ci_letter 0x6A a \<and> ci_letter 0x73 b \<and> ci_letter 0x6F c \<and> ci_letter 0x6E d
     | _ \<Rightarrow> False)"

definition strip_open :: "jsstring \<Rightarrow> jsstring" where
  "strip_open raw =
     (let r1 = drop 3 raw;
          r2 = (if ci_json r1 then drop 4 r1 else r1)
      in dropWhile is_ws r2)"

definition strip_close :: "jsstring \<Rightarrow> jsstring" where
  "strip_close raw =
     (if endsWith raw fence
      then rev (dropWhile is_ws (rev (take (length raw - 3) raw)))
      else raw)"

definition sanitize :: "jsstring \<Rightarrow> jsstring" where
  "sanitize raw0 =
     (let raw = trim raw0
      in if startsWith raw fence then strip_close (strip_open raw) else raw)"

section \<open>JavaScript values and \<open>JSON.parse\<close>\<close>

text \<open>
  The values that \<open>JSON.parse\<close> builds, and \<open>undefined\<close>, which reading a missing
  property gives. A number keeps the text of its literal: no function of the program
  looks at the value of a number. An object is the list of its own properties.
\<close>

datatype jsval =
    JUndefined
  | JNull
  | JBool bool
  | JNum jsstring
  | JStr jsstring
  | JArr "jsval list"
  | JObj "(jsstring \<times> jsval) list"

definition get :: "(jsstring \<times> jsval) list \<Rightarrow> jsstring \<Rightarrow> jsval" where
  \<comment> \<open>\<open>data[key]\<close> for a key that \<open>Object.prototype\<close> does not define\<close>
  "get kvs k = (case map_of kvs k of None \<Rightarrow> JUndefined | Some v \<Rightarrow> v)"

text \<open>
  \<open>JSON.parse\<close> follows the JSON grammar of ECMA-404: white space is space, tab, line
  feed and carriage return only; a string has no raw control character and the escapes
  \<open>\" \\ \/ \b \f \n \r \t \uXXXX\<close>; a number is \<open>-? (0 | [1-9][0-9]*) (. [0-9]+)?
  ([eE] [+-]? [0-9]+)?\<close>; of two members with one name the later value is kept.
  The recursion on nested values is bounded by fuel, which \<open>JSON_parse\<close> takes from the
  length of the text; that amount is always enough (\<open>JSON_parse_fuel\<close> below).
\<close>

definition json_ws :: "jschar \<Rightarrow> bool" where
  "json_ws c = (c = 0x20 \<or> c = 0x09 \<or> c = 0x0A \<or> c = 0x0D)"

definition skip_ws :: "jsstring \<Rightarrow> jsstring" where
  "skip_ws s = dropWhile json_ws s"

definition is_digit :: "jschar \<Rightarrow> bool" where
  "is_digit c = (0x30 \<le> c \<and> c \<le> 0x39)"

definition hex_val :: "jschar \<Rightarrow> jschar option" where
  "hex_val c =
     (if 0x30 \<le> c \<and> c \<le> 0x39 then Some (c - 0x30)
      else if 0x61 \<le> c \<and> c \<le> 0x66 then Some (c - 0x57)
      else if 0x41 \<le> c \<and> c \<le> 0x46 then Some (c - 0x37)
      else None)"

definition unescape :: "jschar \<Rightarrow> jschar option" where
  "unescape e =
     (if e = 0x22 \<or> e = 0x5C \<or> e = 0x2F then Some e
      else if e = 0x62 then Some 0x08
      else if e = 0x66 then Some 0x0C
      else if e = 0x6E then Some 0x0A
      else if e = 0x72 then Some 0x0D
      else if e = 0x74 then Some 0x09
      else None)"

fun parse_chars :: "jsstring \<Rightarrow> jsstring \<Rightarrow> (jsstring \<times> jsstring) option" where
  "parse_chars acc [] = None"
| "parse_chars acc (c # cs) =
     (if c = 0x22 then Some (rev acc, cs)
      else if c = 0x5C then
        (case cs of
           [] \<Rightarrow> None
         | e # es \<Rightarrow>
             if e = 0x75 then
               (case es of
                  h1 # h2 # h3 # h4 # rest \<Rightarrow>
                    (case (hex_val h1, hex_val h2, hex_val h3, hex_val h4) of
                       (Some a, Some b, Some c', Some d) \<Rightarrow>
                         parse_chars ((a * 0x1000 + b * 0x100 + c' * 0x10 + d) # acc) rest
                     | _ \<Rightarrow> None)
                | _ \<Rightarrow> None)
             else (case unescape e of
                     None \<Rightarrow> None
                   | Some x \<Rightarrow> parse_chars (x # acc) es))
      else if c < 0x20 then None
      else parse_chars (c # acc) cs)"

definition parse_frac :: "jsstring \<Rightarrow> (jsstring \<times> jsstring) option" where
  "parse_frac s =
     (case s of
        [] \<Rightarrow> Some ([], [])
      | c # cs \<Rightarrow>
          if c = 0x2E then
            (if takeWhile is_digit cs = [] then None
             else Some (c # takeWhile is_digit cs, dropWhile is_digit cs))
          else Some ([], s))"

definition parse_exp :: "jsstring \<Rightarrow> (jsstring \<times> jsstring) option" where
  "parse_exp s =
     (case s of
        [] \<Rightarrow> Some ([], [])
      | c # cs \<Rightarrow>
          if c = 0x65 \<or> c = 0x45 then
            (let sg = (case cs of [] \<Rightarrow> [] | x # _ \<Rightarrow> if x = 0x2B \<or> x = 0x2D then [x] else []);
                 r = drop (length sg) cs
             in if takeWhile is_digit r = [] then None
                else Some (c # sg @ takeWhile is_digit r, dropWhile is_digit r))
          else Some ([], s))"

definition parse_number :: "jsstring \<Rightarrow> (jsstring \<times> jsstring) option" where
  "parse_number s =
     (let sg = (case s of [] \<Rightarrow> [] | x # _ \<Rightarrow> if x = 0x2D then [x] else []);
          s1 = drop (length sg) s
      in case s1 of
           [] \<Rightarrow> None
         | d # s2 \<Rightarrow>
             if \<not> is_digit d then None
             else
               (let ip = (if d = 0x30 then [d] else d # takeWhile is_digit s2);
                    s3 = (if d = 0x30 then s2 else dropWhile is_digit s2)
                in case parse_frac s3 of
                     None \<Rightarrow> None
                   | Some (fp, s4) \<Rightarrow>
                       (case parse_exp s4 of
                          None \<Rightarrow> None
                        | Some (ep, s5) \<Rightarrow> Some (sg @ ip @ fp @ ep, s5))))"

fun parse_value :: "nat \<Rightarrow> jsstring \<Rightarrow> (jsval \<times> jsstring) option"
  and parse_elements :: "nat \<Rightarrow> jsval list \<Rightarrow> jsstring \<Rightarrow> (jsval \<times> jsstring) option"
  and parse_members :: "nat \<Rightarrow> (jsstring \<times> jsval) list \<Rightarrow> jsstring \<Rightarrow> (jsval \<times> jsstring) option"
where
  "parse_value 0 s = None"
| "parse_value (Suc n) s =
     (case s of
        [] \<Rightarrow> None
      | c # cs \<Rightarrow>
          if c = 0x7B then
            (case skip_ws cs of
               [] \<Rightarrow> None
             | d # ds \<Rightarrow> if d = 0x7D then Some (JObj [], ds) else parse_members n [] (d # ds))
          else if c = 0x5B then
            (case skip_ws cs of
               [] \<Rightarrow> None
             | d # ds \<Rightarrow> if d = 0x5D then Some (JArr [], ds) else parse_elements n [] (d # ds))
          else if c = 0x22 then
            (case parse_chars [] cs of
               None \<Rightarrow> None
             | Some (str, r) \<Rightarrow> Some (JStr str, r))
          else if startsWith s (js ''true'') then Some (JBool True, drop 4 s)
          else if startsWith s (js ''false'') then Some (JBool False, drop 5 s)
          else if startsWith s (js ''null'') then Some (JNull, drop 4 s)
          else
            (case parse_number s of
               None \<Rightarrow> None
             | Some (lit, r) \<Rightarrow> Some (JNum lit, r)))"
| "parse_elements 0 acc s = None"
| "parse_elements (Suc n) acc s =
     (case parse_value n s of
        None \<Rightarrow> None
      | Some (v, r) \<Rightarrow>
          (case skip_ws r of
             [] \<Rightarrow> None
           | c # cs \<Rightarrow>
               if c = 0x2C then parse_elements n (v # acc) (skip_ws cs)
               else if c = 0x5D then Some (JArr (rev (v # acc)), cs)
               else None))"
| "parse_members 0 kvs s = None"
| "parse_members (Suc n) kvs s =
     (case s of
        [] \<Rightarrow> None
      | q # s1 \<Rightarrow>
          if q \<noteq> 0x22 then None
          else
            (case parse_chars [] s1 of
               None \<Rightarrow> None
             | Some (k, r1) \<Rightarrow>
                 (case skip_ws r1 of
                    [] \<Rightarrow> None
                  | c # r2 \<Rightarrow>
                      if c \<noteq> 0x3A then None
                      else
                        (case parse_value n (skip_ws r2) of
                           None \<Rightarrow> None
                         | Some (v, r3) \<Rightarrow>
                             (case skip_ws r3 of
                                [] \<Rightarrow> None
                              | e # r4 \<Rightarrow>
                                  if e = 0x2C then parse_members n (AList.update k v kvs) (skip_ws r4)
                                  else if e = 0x7D then Some (JObj (AList.update k v kvs), r4)
                                  else None)))))"

definition JSON_parse :: "jsstring \<Rightarrow> jsval option" where
  "JSON_parse text =
     (case parse_value (2 * length text + 2) (skip_ws text) of
        None \<Rightarrow> None
      | Some (v, r) \<Rightarrow> if skip_ws r = [] then Some v else None)"

section \<open>Schemas\<close>

text \<open>
  The schemas are built with the zod library. A schema is modelled by what \<open>safeParse\<close>
  does with a value: \<open>None\<close> when \<open>success\<close> is false, otherwise the parsed \<open>data\<close>.
  The list of issues of a failure is only written to the console by the callers and is left
  out. An object schema reads each key of its shape from the input (a missing key reads as
  \<open>undefined\<close>), ignores every other key of the input, and builds a new object from the
  parsed values of the keys of its shape.
\<close>

type_synonym zod = "jsval \<Rightarrow> jsval option"

definition z_string :: "nat \<Rightarrow> zod" where
  \<comment> \<open>\<open>z.string().min(n)\<close>; \<open>z.string()\<close> is \<open>z_string 0\<close>\<close>
  "z_string n v = (case v of JStr s \<Rightarrow> if length s < n then None else Some v | _ \<Rightarrow> None)"

definition z_enum :: "jsstring list \<Rightarrow> zod" where
  "z_enum opts v = (case v of JStr s \<Rightarrow> if s \<in> set opts then Some v else None | _ \<Rightarrow> None)"

definition z_nullable :: "zod \<Rightarrow> zod" where
  "z_nullable z v = (case v of JNull \<Rightarrow> Some JNull | _ \<Rightarrow> z v)"

definition z_optional :: "zod \<Rightarrow> zod" where
  "z_optional z v = (case v of JUndefined \<Rightarrow> Some JUndefined | _ \<Rightarrow> z v)"

definition z_array :: "zod \<Rightarrow> nat option \<Rightarrow> nat option \<Rightarrow> zod" where
  \<comment> \<open>\<open>z.array(el)\<close> with the bounds given by \<open>.min\<close> and \<open>.max\<close>, when present\<close>
  "z_array el lo hi v =
     (case v of
        JArr xs \<Rightarrow>
          if (case lo of None \<Rightarrow> False | Some l \<Rightarrow> length xs < l)
             \<or> (case hi of None \<Rightarrow> False | Some h \<Rightarrow> h < length xs)
          then None
          else map_option JArr (those (map el xs))
      | _ \<Rightarrow> None)"

definition z_object :: "(jsstring \<times> zod) list \<Rightarrow> zod" where
  "z_object shape v =
     (case v of
        JObj kvs \<Rightarrow>
          (let rs = map (\<lambda>(k, z). (k, z (get kvs k))) shape
           in if list_all (\<lambda>(k, r). r \<noteq> None) rs
              then Some (JObj (List.map_filter
                     (\<lambda>(k, r). case r of
                         None \<Rightarrow> None
                       | Some x \<Rightarrow>
                           (case x of
                              JUndefined \<Rightarrow> if k \<in> fst ` set kvs then Some (k, x) else None
                            | _ \<Rightarrow> Some (k, x)))
                     rs))
              else None)
      | _ \<Rightarrow> None)"

text \<open>\<open>schemas/insights.schema.js\<close>\<close>

definition InsightsSchema :: zod where
  "InsightsSchema =
     z_object
       [(js ''summary'', z_string 20),
        (js ''keyConcepts'', z_array (z_string 0) (Some 1) (Some 6)),
        (js ''flashcards'',
           z_array (z_object [(js ''question'', z_string 5), (js ''answer'', z_string 5)])
             None (Some 5)),
        (js ''actionItems'', z_array (z_string 0) (Some 1) (Some 5))]"

text \<open>\<open>OutlineSchema\<close>, lines 385 to 407 of \<open>index.js\<close>\<close>

definition dated_item :: zod where
  "dated_item =
     z_object
       [(js ''text'', z_string 0),
        (js ''date'', z_optional (z_nullable (z_string 0))),
        (js ''priority'', z_optional (z_nullable (z_enum [js ''high'', js ''med'', js ''low''])))]"

definition OutlineSchema :: zod where
  "OutlineSchema =
     z_object
       [(js ''highlights'',
           z_array (z_object [(js ''text'', z_string 0), (js ''category'', z_string 0),
                              (js ''reason'', z_string 0)]) None None),
        (js ''exams'', z_array dated_item None None),
        (js ''assignments'', z_array dated_item None None)]"

section \<open>Provider calls\<close>

text \<open>
  An error is the \<open>message\<close> of the thrown \<open>Error\<close>: the handlers read nothing else of it.
  The speech-to-text and chat-completion services are outside the program: a request is
  recorded, and the reply is an input of the step that continues after the \<open>await\<close>. Of a
  chat request only the part that varies is kept (the transcript, or the outline text cut
  to 20000 code units); the fixed prompt around it, the model name and the temperature are
  constants of the source. A chat reply is the \<open>content\<close> of the first choice, which the
  service may leave \<open>null\<close>.
\<close>

type_synonym error = jsstring

datatype request =
    Transcription jsstring
  | InsightsChat jsstring
  | OutlineChat jsstring

record env =
  OPENAI_API_KEY :: "jsstring option"
  existsSync :: "jsstring \<Rightarrow> bool"

definition transcribe_precheck :: "env \<Rightarrow> jsstring \<Rightarrow> error option" where
  \<comment> \<open>lines 336 to 342: what \<open>transcribeAudioWithWhisper\<close> throws before it sends its request\<close>
  "transcribe_precheck e audio =
     (if OPENAI_API_KEY e = None \<or> OPENAI_API_KEY e = Some []
      then Some (js ''Missing OPENAI_API_KEY in .env'')
      else if \<not> existsSync e audio then Some (js ''Audio file not found: '' @ audio)
      else None)"

definition transcript_of_reply :: "error + jsstring \<Rightarrow> error + jsstring" where
  \<comment> \<open>lines 346 to 357: \<open>transcribeAudioWithWhisper\<close> after its request returns; it gives
      \<open>String(result || "").trim()\<close>, and a rejected request rejects the call\<close>
  "transcript_of_reply reply = (case reply of Inl m \<Rightarrow> Inl m | Inr result \<Rightarrow> Inr (trim result))"

definition null_trim_message :: error where
  \<comment> \<open>the message of the \<open>TypeError\<close> that \<open>raw.trim()\<close> throws in Node when \<open>raw\<close> is \<open>null\<close>\<close>
  "null_trim_message = js ''Cannot read properties of null (reading 'trim')''"

definition insights_of_reply :: "error + jsstring option \<Rightarrow> error + jsval" where
  \<comment> \<open>lines 501 to 528: \<open>generateInsightsFromTranscript\<close> after the chat request returns\<close>
  "insights_of_reply reply =
     (case reply of
        Inl m \<Rightarrow> Inl m
      | Inr None \<Rightarrow> Inl null_trim_message
      | Inr (Some raw) \<Rightarrow>
          (case JSON_parse (sanitize raw) of
             None \<Rightarrow> Inl (js ''LLM returned invalid JSON'')
           | Some parsed \<Rightarrow>
               (case InsightsSchema parsed of
                  None \<Rightarrow> Inl (js ''LLM output failed schema validation'')
                | Some _ \<Rightarrow> Inr parsed)))"


definition outline_of_reply :: "error + jsstring option \<Rightarrow> error + jsval" where
  \<comment> \<open>lines 420 to 436: \<open>extractOutlineFromText\<close> after the chat request returns\<close>
  "outline_of_reply reply =
     (case reply of
        Inl m \<Rightarrow> Inl m
      | Inr content \<Rightarrow>
          (let raw = trim (case content of None \<Rightarrow> [] | Some c \<Rightarrow> c)
           in case JSON_parse raw of
                None \<Rightarrow> Inl (js ''Invalid outline JSON'')
              | Some parsed \<Rightarrow>
                  (case OutlineSchema parsed of
                     None \<Rightarrow> Inl (js ''Outline schema validation failed'')
                   | Some _ \<Rightarrow> Inr parsed)))"

definition extractOutlineFromText ::
  "(request \<Rightarrow> error + jsstring option) \<Rightarrow> jsstring \<Rightarrow> error + jsval" where
  "extractOutlineFromText chat text =
     outline_of_reply (chat (OutlineChat (take 20000 text)))"

section \<open>Sessions\<close>

datatype status = Processing | Transcribed | Ready | Failed

record session =
  id' :: jsstring
  eventId :: "jsstring option"
  title :: jsstring
  audioPath :: jsstring
  audioFilename :: jsstring
  transcript :: jsstring
  insights :: "jsval option"
  status :: status
  progress :: nat
  error :: "jsstring option"
  createdAt :: jsstring
  processedAt :: "jsstring option"

text \<open>
  What the upload handler reads to build a session (lines 76 to 95): the absolute path and
  the name of the stored file, the two optional form fields, and the clock, once as
  \<open>Date.now()\<close> in decimal and once as an ISO string. The field \<open>id\<close> of a session is
  written \<open>id'\<close>.
\<close>

record upload =
  file_path :: jsstring
  file_filename :: jsstring
  body_eventId :: "jsstring option"
  body_title :: "jsstring option"
  now_ms :: jsstring
  now_iso :: jsstring

definition new_session :: "upload \<Rightarrow> session" where
  "new_session u =
     \<lparr> id' = js ''sess-'' @ now_ms u,
       eventId = (case body_eventId u of None \<Rightarrow> None | Some x \<Rightarrow> if x = [] then None else Some x),
       title = (case body_title u of None \<Rightarrow> js ''Capture''
                | Some x \<Rightarrow> if x = [] then js ''Capture'' else x),
       audioPath = file_path u,
       audioFilename = file_filename u,
       transcript = [],
       insights = None,
       status = Processing,
       progress = 0,
       error = None,
       createdAt = now_iso u,
       processedAt = None \<rparr>"

text \<open>
  The fixed result that \<open>processSession\<close> stores for a transcript that is too short
  (lines 300 to 310).
\<close>

definition fallback_insights :: jsval where
  "fallback_insights =
     JObj
       [(js ''summary'',
           JStr (js ''The recording did not contain enough audible content to generate insights.'')),
        (js ''keyConcepts'', JArr []),
        (js ''flashcards'', JArr []),
        (js ''actionItems'',
           JArr [JStr (js ''Re-record the session with clearer speech.''),
                 JStr (js ''Ensure the microphone is close to the speaker.''),
                 JStr (js ''Avoid long silences during recording.'')])]"

text \<open>
  Each block of assignments of the source is the list of its assignments, in order.
  \<open>writes\<close> gives the session after each one.
\<close>

fun writes :: "(session \<Rightarrow> session) list \<Rightarrow> session \<Rightarrow> session list" where
  "writes [] s = []"
| "writes (w # ws) s = w s # writes ws (w s)"

definition start_writes :: "(session \<Rightarrow> session) list" where
  \<comment> \<open>lines 287 and 288\<close>
  "start_writes = [\<lambda>s. s\<lparr>progress := 10\<rparr>, \<lambda>s. s\<lparr>status := Processing\<rparr>]"

definition transcribed_writes :: "jsstring \<Rightarrow> (session \<Rightarrow> session) list" where
  \<comment> \<open>lines 292 to 294\<close>
  "transcribed_writes t =
     [\<lambda>s. s\<lparr>transcript := t\<rparr>, \<lambda>s. s\<lparr>progress := 60\<rparr>, \<lambda>s. s\<lparr>status := Transcribed\<rparr>]"

definition fallback_writes :: "jsstring \<Rightarrow> (session \<Rightarrow> session) list" where
  \<comment> \<open>lines 300 to 314\<close>
  "fallback_writes now =
     [\<lambda>s. s\<lparr>insights := Some fallback_insights\<rparr>, \<lambda>s. s\<lparr>status := Ready\<rparr>,
      \<lambda>s. s\<lparr>progress := 100\<rparr>, \<lambda>s. s\<lparr>processedAt := Some now\<rparr>]"

definition ready_writes :: "jsval \<Rightarrow> jsstring \<Rightarrow> (session \<Rightarrow> session) list" where
  \<comment> \<open>lines 323 to 326\<close>
  "ready_writes v now =
     [\<lambda>s. s\<lparr>insights := Some v\<rparr>, \<lambda>s. s\<lparr>progress := 100\<rparr>,
      \<lambda>s. s\<lparr>status := Ready\<rparr>, \<lambda>s. s\<lparr>processedAt := Some now\<rparr>]"

definition failed_writes :: "error \<Rightarrow> (session \<Rightarrow> session) list" where
  \<comment> \<open>the \<open>catch\<close> callbacks, lines 101 to 103 and 158 to 160\<close>
  "failed_writes m =
     [\<lambda>s. s\<lparr>status := Failed\<rparr>, \<lambda>s. s\<lparr>progress := 0\<rparr>,
      \<lambda>s. s\<lparr>error := Some (if m = [] then js ''Unknown error'' else m)\<rparr>]"

definition reprocess_writes :: "(session \<Rightarrow> session) list" where
  \<comment> \<open>lines 149 to 154\<close>
  "reprocess_writes =
     [\<lambda>s. s\<lparr>status := Processing\<rparr>, \<lambda>s. s\<lparr>progress := 0\<rparr>, \<lambda>s. s\<lparr>error := None\<rparr>,
      \<lambda>s. s\<lparr>transcript := []\<rparr>, \<lambda>s. s\<lparr>insights := None\<rparr>, \<lambda>s. s\<lparr>processedAt := None\<rparr>]"

section \<open>The pipeline as a transition system\<close>

text \<open>
  \<open>processSession\<close> is an \<open>async\<close> function with two \<open>await\<close>s. JavaScript runs the code
  between two \<open>await\<close>s without interruption, so a call of \<open>processSession\<close> is a run that
  is waiting for the transcription, waiting for the chat completion (holding its local
  \<open>transcript\<close>), or finished. Nothing in the source keeps a second run from starting
  while one is waiting: the state holds every run that was started.

  The state is one session object, the runs started on it, the requests sent so far, and
  the session after every assignment made so far. The registry holds this object under
  its \<open>id\<close>; identifiers of distinct uploads are taken to be distinct.
\<close>

datatype run = AwaitWhisper | AwaitChat jsstring | Finished

record sys =
  sess :: session
  runs :: "run list"
  calls :: "request list"
  hist :: "session list"

definition commit :: "(session \<Rightarrow> session) list \<Rightarrow> sys \<Rightarrow> sys" where
  "commit ws \<sigma> = \<sigma>\<lparr>sess := foldl (\<lambda>s w. w s) (sess \<sigma>) ws, hist := hist \<sigma> @ writes ws (sess \<sigma>)\<rparr>"

definition fresh :: "session \<Rightarrow> sys" where
  \<comment> \<open>a session on which nothing has run yet\<close>
  "fresh s = \<lparr>sess = s, runs = [], calls = [], hist = [s]\<rparr>"

text \<open>
  A handler calls \<open>processSession(id)\<close> and attaches the \<open>catch\<close> callback. The call runs
  to the first \<open>await\<close>: the lookup in the registry (both handlers have the session, so
  they pass \<open>Some\<close>), the two assignments, and the start of \<open>transcribeAudioWithWhisper\<close>.
  When that throws, the rejection reaches the callback before any other request is served.
\<close>

definition spawn :: "env \<Rightarrow> session option \<Rightarrow> sys \<Rightarrow> sys" where
  "spawn e found \<sigma> =
     (case found of
        None \<Rightarrow> (commit (failed_writes (js ''Session not found'')) \<sigma>)\<lparr>runs := runs \<sigma> @ [Finished]\<rparr>
      | Some _ \<Rightarrow>
          (let \<sigma>1 = commit start_writes \<sigma>
           in case transcribe_precheck e (audioPath (sess \<sigma>1)) of
                Some m \<Rightarrow> (commit (failed_writes m) \<sigma>1)\<lparr>runs := runs \<sigma> @ [Finished]\<rparr>
              | None \<Rightarrow>
                  \<sigma>1\<lparr>runs := runs \<sigma> @ [AwaitWhisper],
                     calls := calls \<sigma> @ [Transcription (audioPath (sess \<sigma>1))]\<rparr>))"

definition create :: "upload \<Rightarrow> env \<Rightarrow> sys" where
  \<comment> \<open>\<open>POST /api/sessions\<close> with a file, lines 76 to 104\<close>
  "create u e =
     spawn e (Some (new_session u)) (fresh (new_session u))"

definition after_transcription :: "nat \<Rightarrow> jsstring \<Rightarrow> jsstring \<Rightarrow> sys \<Rightarrow> sys" where
  \<comment> \<open>lines 292 to 321: run \<open>i\<close> continues with its \<open>transcript\<close>, up to the next \<open>await\<close>\<close>
  "after_transcription i t now \<sigma> =
     (let \<sigma>1 = commit (transcribed_writes t) \<sigma>
      in if t = [] \<or> length (trim t) < 20
         then (commit (fallback_writes now) \<sigma>1)\<lparr>runs := (runs \<sigma>)[i := Finished]\<rparr>
         else \<sigma>1\<lparr>runs := (runs \<sigma>)[i := AwaitChat t], calls := calls \<sigma> @ [InsightsChat t]\<rparr>)"

definition whisper_done :: "nat \<Rightarrow> error + jsstring \<Rightarrow> jsstring \<Rightarrow> sys \<Rightarrow> sys" where
  "whisper_done i reply now \<sigma> =
     (if i < length (runs \<sigma>) \<and> runs \<sigma> ! i = AwaitWhisper
      then (case transcript_of_reply reply of
              Inl m \<Rightarrow> (commit (failed_writes m) \<sigma>)\<lparr>runs := (runs \<sigma>)[i := Finished]\<rparr>
            | Inr t \<Rightarrow> after_transcription i t now \<sigma>)
      else \<sigma>)"

definition chat_done :: "nat \<Rightarrow> error + jsstring option \<Rightarrow> jsstring \<Rightarrow> sys \<Rightarrow> sys" where
  \<comment> \<open>lines 321 to 326, or the \<open>catch\<close> callback\<close>
  "chat_done i reply now \<sigma> =
     (if i < length (runs \<sigma>)
      then (case runs \<sigma> ! i of
              AwaitChat t \<Rightarrow>
                (case insights_of_reply reply of
                   Inl m \<Rightarrow> (commit (failed_writes m) \<sigma>)\<lparr>runs := (runs \<sigma>)[i := Finished]\<rparr>
                 | Inr v \<Rightarrow> (commit (ready_writes v now) \<sigma>)\<lparr>runs := (runs \<sigma>)[i := Finished]\<rparr>)
            | _ \<Rightarrow> \<sigma>)
      else \<sigma>)"

definition reprocess :: "env \<Rightarrow> sys \<Rightarrow> sys" where
  \<comment> \<open>\<open>POST /api/sessions/:id/reprocess\<close> for the session, lines 149 to 161\<close>
  "reprocess e \<sigma> = (let \<sigma>1 = commit reprocess_writes \<sigma> in spawn e (Some (sess \<sigma>1)) \<sigma>1)"

text \<open>
  What can happen to a session after its upload: the transcription of run \<open>i\<close> returns,
  the chat completion of run \<open>i\<close> returns (each with the time at which the run continues),
  or a reprocess request arrives. A reply for a run that is not waiting for it does not
  occur and changes nothing. Between two events the session is what a reader sees.
\<close>

datatype event =
    WhisperDone nat "error + jsstring" jsstring
  | ChatDone nat "error + jsstring option" jsstring
  | Reprocess env

fun fire :: "event \<Rightarrow> sys \<Rightarrow> sys" where
  "fire (WhisperDone i reply now) \<sigma> = whisper_done i reply now \<sigma>"
| "fire (ChatDone i reply now) \<sigma> = chat_done i reply now \<sigma>"
| "fire (Reprocess e) \<sigma> = reprocess e \<sigma>"

fun exec :: "event list \<Rightarrow> sys \<Rightarrow> sys" where
  "exec [] \<sigma> = \<sigma>"
| "exec (ev # evs) \<sigma> = exec evs (fire ev \<sigma>)"

definition idle :: "sys \<Rightarrow> bool" where
  "idle \<sigma> = list_all (\<lambda>r. r = Finished) (runs \<sigma>)"

fun serial :: "event list \<Rightarrow> sys \<Rightarrow> bool" where
  "serial [] \<sigma> = True"
| "serial (ev # evs) \<sigma> =
     ((case ev of Reprocess _ \<Rightarrow> idle \<sigma> | _ \<Rightarrow> True) \<and> serial evs (fire ev \<sigma>))"

section \<open>Properties named by the specification\<close>

text \<open>
  The bounds that the specification lists for an insights candidate: a summary of at least
  20 code units, 1 to 6 key concepts, at most 5 flashcards, 1 to 5 action items.
\<close>

definition string_min :: "nat \<Rightarrow> jsval \<Rightarrow> bool" where
  "string_min n v = (case v of JStr s \<Rightarrow> n \<le> length s | _ \<Rightarrow> False)"

definition array_len :: "nat \<Rightarrow> nat \<Rightarrow> jsval \<Rightarrow> bool" where
  "array_len lo hi v = (case v of JArr xs \<Rightarrow> lo \<le> length xs \<and> length xs \<le> hi | _ \<Rightarrow> False)"

definition within_bounds :: "jsval \<Rightarrow> bool" where
  "within_bounds v =
     (case v of
        JObj kvs \<Rightarrow>
          string_min 20 (get kvs (js ''summary'')) \<and>
          array_len 1 6 (get kvs (js ''keyConcepts'')) \<and>
          array_len 0 5 (get kvs (js ''flashcards'')) \<and>
          array_len 1 5 (get kvs (js ''actionItems''))
      | _ \<Rightarrow> False)"

text \<open>
  What the schema asks of the elements of the three lists: key concepts and action items
  are strings, a flashcard is an object whose \<open>question\<close> and \<open>answer\<close> are strings of at
  least 5 code units.
\<close>

definition items :: "jsval \<Rightarrow> jsval list" where
  "items v = (case v of JArr xs \<Rightarrow> xs | _ \<Rightarrow> [])"

definition flashcard_ok :: "jsval \<Rightarrow> bool" where
  "flashcard_ok v =
     (case v of
        JObj kvs \<Rightarrow> string_min 5 (get kvs (js ''question'')) \<and> string_min 5 (get kvs (js ''answer''))
      | _ \<Rightarrow> False)"

definition items_ok :: "jsval \<Rightarrow> bool" where
  "items_ok v =
     (case v of
        JObj kvs \<Rightarrow>
          list_all (string_min 0) (items (get kvs (js ''keyConcepts''))) \<and>
          list_all flashcard_ok (items (get kvs (js ''flashcards''))) \<and>
          list_all (string_min 0) (items (get kvs (js ''actionItems'')))
      | _ \<Rightarrow> False)"

text \<open>Text with no white space at either end.\<close>

definition trimmed :: "jsstring \<Rightarrow> bool" where
  "trimmed s = (s = [] \<or> (\<not> is_ws (hd s) \<and> \<not> is_ws (last s)))"

text \<open>The status changes that the state machine of the specification allows.\<close>

definition step_ok :: "status \<Rightarrow> status \<Rightarrow> bool" where
  "step_ok a b =
     (a = b \<or> (a = Processing \<and> b = Transcribed) \<or> (a = Transcribed \<and> b = Ready) \<or> b = Failed)"

text \<open>
  One run with nothing else touching the session: the session after each assignment,
  from the session the handler called \<open>processSession\<close> on, through both replies.
\<close>

definition run_alone ::
  "env \<Rightarrow> error + jsstring \<Rightarrow> jsstring \<Rightarrow> error + jsstring option \<Rightarrow> jsstring \<Rightarrow> session \<Rightarrow> session list" where
  "run_alone e wreply now1 creply now2 s =
     hist (chat_done 0 creply now2 (whisper_done 0 wreply now1 (spawn e (Some s) (fresh s))))"

text \<open>
  At rest a session has insights exactly when it is ready. The invariant that carries
  this through a schedule in which every reprocess request finds no run waiting: only the
  run started last can be waiting, and the status says what it is waiting for.
\<close>

definition at_rest_ok :: "session \<Rightarrow> bool" where
  "at_rest_ok s = (insights s \<noteq> None \<longleftrightarrow> status s = Ready)"

definition rest_inv :: "sys \<Rightarrow> bool" where
  "rest_inv \<sigma> =
     (runs \<sigma> \<noteq> [] \<and> list_all (\<lambda>r. r = Finished) (butlast (runs \<sigma>)) \<and>
      (case last (runs \<sigma>) of
         AwaitWhisper \<Rightarrow> status (sess \<sigma>) = Processing \<and> insights (sess \<sigma>) = None
       | AwaitChat t \<Rightarrow> status (sess \<sigma>) = Transcribed \<and> insights (sess \<sigma>) = None
       | Finished \<Rightarrow> at_rest_ok (sess \<sigma>)))"

text \<open>The fields of a session that no step of the pipeline and no handler assigns.\<close>

definition same_identity :: "session \<Rightarrow> session \<Rightarrow> bool" where
  "same_identity a b =
     (id' b = id' a \<and> audioPath b = audioPath a \<and> title b = title a \<and> eventId b = eventId a
      \<and> createdAt b = createdAt a)"

text \<open>
  Two facts that hold of every session whatever runs overlap: the progress, now and after
  every assignment so far, is one of 0, 10, 60 and 100; and a session that is \<open>ready\<close>
  has insights.
\<close>

definition progress_ok :: "sys \<Rightarrow> bool" where
  "progress_ok \<sigma> =
     (progress (sess \<sigma>) \<in> {0, 10, 60, 100}
      \<and> list_all (\<lambda>x. progress x \<in> {0, 10, 60, 100}) (hist \<sigma>))"

definition ready_has_insights :: "session \<Rightarrow> bool" where
  "ready_has_insights s = (status s \<noteq> Ready \<or> insights s \<noteq> None)"

section \<open>Sample inputs\<close>

definition demo_upload :: upload where
  "demo_upload =
     \<lparr> file_path = js ''/srv/uploads/1-a.m4a'', file_filename = js ''1-a.m4a'',
       body_eventId = None, body_title = Some (js ''Biology''),
       now_ms = js ''1700000000000'', now_iso = js ''2023-11-14T22:13:20.000Z'' \<rparr>"

definition demo_env :: env where
  "demo_env = \<lparr> OPENAI_API_KEY = Some (js ''sk''), existsSync = (\<lambda>_. True) \<rparr>"

definition no_key_env :: env where
  "no_key_env = \<lparr> OPENAI_API_KEY = None, existsSync = (\<lambda>_. True) \<rparr>"

definition demo_transcript :: jsstring where
  "demo_transcript = js ''Photosynthesis has two stages.''"

definition demo_reply :: jsstring where
  \<open>demo_reply =
     js ''{"summary":"Light and dark reactions.","keyConcepts":["light"],"flashcards":[],"actionItems":["Review"]}''\<close>

definition demo_value :: jsval where
  "demo_value =
     JObj [(js ''summary'', JStr (js ''Light and dark reactions.'')),
           (js ''keyConcepts'', JArr [JStr (js ''light'')]),
           (js ''flashcards'', JArr []),
           (js ''actionItems'', JArr [JStr (js ''Review'')])]"


definition short_card :: jsval where
  "short_card =
     JObj [(js ''summary'', JStr (js ''Light and dark reactions.'')),
           (js ''keyConcepts'', JArr [JStr (js ''light'')]),
           (js ''flashcards'', JArr [JObj [(js ''question'', JStr (js ''Why?'')),
                                           (js ''answer'', JStr (js ''Light''))]]),
           (js ''actionItems'', JArr [JStr (js ''Review'')])]"

definition nl :: jsstring where
  "nl = [0x0A]"

definition twice_fenced :: jsstring where
  "twice_fenced = fence @ nl @ fence @ js ''json'' @ nl @ js ''{}'' @ nl @ fence @ nl @ fence"

definition fenced_outline :: jsstring where
  \<open>fenced_outline =
     fence @ js ''json'' @ nl @ js ''{"highlights":[],"exams":[],"assignments":[]}'' @ nl @ fence\<close>

definition overlap :: "event list" where
  "overlap =
     [WhisperDone 0 (Inr demo_transcript) (js ''t1''),
      Reprocess demo_env,
      ChatDone 0 (Inr (Some demo_reply)) (js ''t2''),
      WhisperDone 1 (Inr demo_transcript) (js ''t3'')]"

definition obj_fields :: "jsval \<Rightarrow> (jsstring \<times> jsval) list" where
  "obj_fields v = (case v of JObj kvs \<Rightarrow> kvs | _ \<Rightarrow> [])"

definition failed_with :: "error \<Rightarrow> session \<Rightarrow> bool" where
  \<comment> \<open>what the \<open>catch\<close> callback leaves for an error with message \<open>m\<close>\<close>
  "failed_with m s =
     (status s = Failed \<and> progress s = 0
      \<and> error s = Some (if m = [] then js ''Unknown error'' else m))"


definition seven_concepts :: jsstring where
  \<open>seven_concepts =
     js ''{"summary":"Light and dark reactions.","keyConcepts":["a","b","c","d","e","f","g"],"flashcards":[],"actionItems":["Review"]}''\<close>

definition seven_value :: jsval where
  "seven_value =
     JObj [(js ''summary'', JStr (js ''Light and dark reactions.'')),
           (js ''keyConcepts'', JArr (map (\<lambda>c. JStr [c]) (js ''abcdefg''))),
           (js ''flashcards'', JArr []),
           (js ''actionItems'', JArr [JStr (js ''Review'')])]"

definition empty_outline :: jsval where
  "empty_outline =
     JObj [(js ''highlights'', JArr []), (js ''exams'', JArr []), (js ''assignments'', JArr [])]"

definition plain_outline :: jsstring where
  \<open>plain_outline = nl @ js ''{"highlights":[],"exams":[],"assignments":[]}'' @ nl\<close>

definition overlap_finished :: "event list" where
  "overlap_finished = overlap @ [ChatDone 1 (Inr (Some demo_reply)) (js ''t4'')]"

definition overlap_hist :: "session list" where
  "overlap_hist = hist (exec overlap_finished (create demo_upload demo_env))"

definition in_turn :: "event list" where
  "in_turn =
     [WhisperDone 0 (Inr demo_transcript) (js ''t1''),
      ChatDone 0 (Inr (Some demo_reply)) (js ''t2''),
      Reprocess demo_env,
      WhisperDone 1 (Inr (js ''um'')) (js ''t3'')]"

definition fenced_seven :: jsstring where
  "fenced_seven = fence @ js ''json'' @ nl @ seven_concepts @ nl @ fence"

definition waiting_chat :: sys where
  "waiting_chat = exec [WhisperDone 0 (Inr demo_transcript) (js ''t1'')] (create demo_upload demo_env)"

definition done_once :: sys where
  "done_once =
     exec [WhisperDone 0 (Inr demo_transcript) (js ''t1''), ChatDone 0 (Inr (Some demo_reply)) (js ''t2'')]
       (create demo_upload demo_env)"

definition syllabus :: jsstring where
  "syllabus = js ''Biology 101. One midterm, no assignments.''"

definition fenced_chat :: "request \<Rightarrow> error + jsstring option" where
  "fenced_chat q = Inr (Some fenced_outline)"

definition plain_chat :: "request \<Rightarrow> error + jsstring option" where
  "plain_chat q = Inr (Some plain_outline)"


section \<open>White space and fences\<close>

lemma rstrip_id: "s = [] \<or> \<not> P (last s) \<Longrightarrow> rev (dropWhile P (rev s)) = s"
proof -
  assume a: "s = [] \<or> \<not> P (last s)"
  have "dropWhile P (rev s) = rev s"
    unfolding dropWhile_eq_self_iff using a by (auto simp: hd_rev)
  then show ?thesis by simp
qed

lemma rstrip_last: "rev (dropWhile P (rev s)) \<noteq> [] \<Longrightarrow> \<not> P (last (rev (dropWhile P (rev s))))"
  by (simp add: last_rev hd_dropWhile)

lemma rstrip_prefix: "\<exists>w. s = rev (dropWhile P (rev s)) @ w \<and> (\<forall>c\<in>set w. P c)"
proof -
  have "rev s = takeWhile P (rev s) @ dropWhile P (rev s)" by simp
  then have "s = rev (dropWhile P (rev s)) @ rev (takeWhile P (rev s))"
    by (metis rev_append rev_rev_ident)
  moreover have "\<forall>c\<in>set (rev (takeWhile P (rev s))). P c"
    by (auto dest: set_takeWhileD)
  ultimately show ?thesis by blast
qed

lemma rstrip_hd: "rev (dropWhile P (rev s)) \<noteq> [] \<Longrightarrow> hd (rev (dropWhile P (rev s))) = hd s"
  using rstrip_prefix [of s P] by (metis hd_append2)

lemma rstrip_append_ws: "\<forall>c\<in>set w. P c \<Longrightarrow> rev (dropWhile P (rev (s @ w))) = rev (dropWhile P (rev s))"
proof -
  assume a: "\<forall>c\<in>set w. P c"
  have "dropWhile P (rev w @ rev s) = dropWhile P (rev s)"
    by (rule dropWhile_append2) (use a in auto)
  then show ?thesis by simp
qed

lemma dropWhile_last_keep: "dropWhile P s \<noteq> [] \<Longrightarrow> last (dropWhile P s) = last s"
  by (metis last_appendR takeWhile_dropWhile_id)

lemma trim_trimmed: "trimmed s \<Longrightarrow> trim s = s"
proof -
  assume t: "trimmed s"
  have "dropWhile is_ws s = s"
    unfolding dropWhile_eq_self_iff using t by (auto simp: trimmed_def)
  moreover have "rev (dropWhile is_ws (rev s)) = s"
    by (rule rstrip_id) (use t in \<open>auto simp: trimmed_def\<close>)
  ultimately show ?thesis by (simp add: trim_def)
qed

lemma trimmed_trim: "trimmed (trim s)"
proof (cases "trim s = []")
  case True
  then show ?thesis by (simp add: trimmed_def)
next
  case False
  let ?d = "dropWhile is_ws s"
  from False have ne: "rev (dropWhile is_ws (rev ?d)) \<noteq> []" by (simp add: trim_def)
  have dne: "?d \<noteq> []"
  proof
    assume "?d = []"
    with ne show False by simp
  qed
  have "\<not> is_ws (last (trim s))" using rstrip_last [OF ne] by (simp add: trim_def)
  moreover have "hd (trim s) = hd ?d" using rstrip_hd [OF ne] by (simp add: trim_def)
  moreover have "\<not> is_ws (hd ?d)" using dne by (rule hd_dropWhile)
  ultimately show ?thesis using False by (simp add: trimmed_def)
qed

lemma trimmed_tail: "trimmed s \<Longrightarrow> trimmed (dropWhile is_ws (drop n s))"
proof -
  assume t: "trimmed s"
  show ?thesis
  proof (cases "dropWhile is_ws (drop n s) = []")
    case True then show ?thesis by (simp add: trimmed_def)
  next
    case False
    then have dn: "drop n s \<noteq> []" by auto
    then have "s \<noteq> []" by auto
    have "last (dropWhile is_ws (drop n s)) = last (drop n s)" using False by (rule dropWhile_last_keep)
    also have "\<dots> = last s" using dn by simp
    finally have "\<not> is_ws (last (dropWhile is_ws (drop n s)))"
      using t \<open>s \<noteq> []\<close> by (simp add: trimmed_def)
    moreover have "\<not> is_ws (hd (dropWhile is_ws (drop n s)))" using False by (rule hd_dropWhile)
    ultimately show ?thesis by (simp add: trimmed_def)
  qed
qed

lemma trimmed_strip_open: "trimmed s \<Longrightarrow> trimmed (strip_open s)"
  unfolding strip_open_def Let_def
  by (simp add: trimmed_tail)

lemma trimmed_rstrip: "trimmed s \<Longrightarrow> trimmed (rev (dropWhile is_ws (rev (take n s))))"
proof (cases "rev (dropWhile is_ws (rev (take n s))) = []")
  case True then show ?thesis by (simp add: trimmed_def)
next
  case False
  assume t: "trimmed s"
  have tn: "take n s \<noteq> []"
  proof
    assume "take n s = []"
    with False show False by simp
  qed
  then have sn: "s \<noteq> []" by auto
  have "hd (rev (dropWhile is_ws (rev (take n s)))) = hd (take n s)" using False by (rule rstrip_hd)
  also have "\<dots> = hd s" using tn by (cases s; cases n) simp_all
  finally have "\<not> is_ws (hd (rev (dropWhile is_ws (rev (take n s)))))"
    using t sn by (simp add: trimmed_def)
  moreover have "\<not> is_ws (last (rev (dropWhile is_ws (rev (take n s)))))" using False by (rule rstrip_last)
  ultimately show ?thesis by (simp add: trimmed_def)
qed

lemma trimmed_strip_close: "trimmed s \<Longrightarrow> trimmed (strip_close s)"
  unfolding strip_close_def by (simp add: trimmed_rstrip)

lemma trimmed_sanitize: "trimmed (sanitize x)"
  unfolding sanitize_def Let_def
  by (simp add: trimmed_trim trimmed_strip_open trimmed_strip_close)

lemma sanitize_clean: "trim t = t \<Longrightarrow> \<not> startsWith t fence \<Longrightarrow> sanitize t = t"
  by (simp add: sanitize_def)

lemma sanitize_twice: "\<not> startsWith (sanitize x) fence \<Longrightarrow> sanitize (sanitize x) = sanitize x"
  by (rule sanitize_clean) (simp_all add: trim_trimmed trimmed_sanitize)

lemma not_ws_backquote: "\<not> is_ws backquote"
  by (simp add: is_ws_def backquote_def)

lemma dropWhile_keep: "ys \<noteq> [] \<Longrightarrow> \<not> P (hd ys) \<Longrightarrow> dropWhile P (xs @ ys) = dropWhile P xs @ ys"
  by (induction xs) (simp_all add: dropWhile_eq_self_iff)

lemma trim_append_ws: "\<forall>c\<in>set w. is_ws c \<Longrightarrow> trim (s @ w) = trim s"
proof (cases "\<forall>c\<in>set s. is_ws c")
  case True
  assume "\<forall>c\<in>set w. is_ws c"
  with True have a: "dropWhile is_ws (s @ w) = []" and b: "dropWhile is_ws s = []" by auto
  show ?thesis by (simp only: trim_def a b)
next
  case False
  assume w: "\<forall>c\<in>set w. is_ws c"
  from False have "dropWhile is_ws (s @ w) = dropWhile is_ws s @ w"
    by (auto simp: dropWhile_append)
  then show ?thesis using rstrip_append_ws [OF w, of "dropWhile is_ws s"] by (simp add: trim_def)
qed

lemma trim_prepend_ws: "\<forall>c\<in>set w. is_ws c \<Longrightarrow> trim (w @ s) = trim s"
  by (simp add: trim_def dropWhile_append)

lemma ci_letter_plain:
  "ci_letter 0x6A c \<or> ci_letter 0x73 c \<or> ci_letter 0x6F c \<or> ci_letter 0x6E c
   \<Longrightarrow> \<not> is_ws c \<and> c \<noteq> backquote"
  by (auto simp: ci_letter_def is_ws_def backquote_def)

lemma ci_json_nth:
  "ci_json s \<longleftrightarrow> 4 \<le> length s \<and> ci_letter 0x6A (s ! 0) \<and> ci_letter 0x73 (s ! 1)
      \<and> ci_letter 0x6F (s ! 2) \<and> ci_letter 0x6E (s ! 3)"
proof (cases s)
  case Nil then show ?thesis by (simp add: ci_json_def)
next
  case (Cons a s1)
  show ?thesis
  proof (cases s1)
    case Nil with Cons show ?thesis by (simp add: ci_json_def)
  next
    case (Cons b s2)
    note c2 = this
    show ?thesis
    proof (cases s2)
      case Nil with c2 \<open>s = a # s1\<close> show ?thesis by (simp add: ci_json_def)
    next
      case (Cons c s3)
      note c3 = this
      show ?thesis
      proof (cases s3)
        case Nil with c2 c3 \<open>s = a # s1\<close> show ?thesis by (simp add: ci_json_def)
      next
        case (Cons d s4)
        with c2 c3 \<open>s = a # s1\<close> show ?thesis by (simp add: ci_json_def)
      qed
    qed
  qed
qed

lemma ci_json_extend:
  assumes cj: "ci_json (inner @ r)" and rn: "r \<noteq> []" and hr: "is_ws (hd r) \<or> hd r = backquote"
  shows "ci_json inner"
proof (cases "4 \<le> length inner")
  case True
  then have "inner \<noteq> []" by auto
  with True show ?thesis using cj by (simp add: ci_json_nth nth_append)
next
  case False
  then have lt: "length inner < 4" by simp
  have at: "(inner @ r) ! length inner = hd r" using rn by (simp add: nth_append hd_conv_nth)
  from lt have "length inner = 0 \<or> length inner = 1 \<or> length inner = 2 \<or> length inner = 3"
    by arith
  then have "ci_letter 0x6A (hd r) \<or> ci_letter 0x73 (hd r) \<or> ci_letter 0x6F (hd r) \<or> ci_letter 0x6E (hd r)"
    using cj at unfolding ci_json_nth by (metis One_nat_def)
  then show ?thesis using hr ci_letter_plain by blast
qed


lemma strip_open_tag:
  "ci_json tag \<Longrightarrow> length tag = 4 \<Longrightarrow> strip_open (fence @ tag @ y) = dropWhile is_ws y"
  by (simp add: strip_open_def fence_def ci_json_nth nth_append)

lemma strip_open_plain: "\<not> ci_json y \<Longrightarrow> strip_open (fence @ y) = dropWhile is_ws y"
  by (simp add: strip_open_def fence_def)

lemma strip_close_fence: "strip_close (z @ fence) = rev (dropWhile is_ws (rev z))"
  by (simp add: strip_close_def endsWith_def fence_def)

lemma fenced_body:
  assumes w1: "\<forall>c\<in>set w1. is_ws c" and w2: "\<forall>c\<in>set w2. is_ws c"
  shows "strip_close (dropWhile is_ws (w1 @ inner @ w2 @ fence)) = trim inner"
proof -
  have "dropWhile is_ws (w1 @ inner @ w2 @ fence) = dropWhile is_ws ((inner @ w2) @ fence)"
    using w1 by (simp add: dropWhile_append)
  also have "\<dots> = dropWhile is_ws (inner @ w2) @ fence"
    by (rule dropWhile_keep) (simp_all add: fence_def not_ws_backquote)
  finally have "strip_close (dropWhile is_ws (w1 @ inner @ w2 @ fence)) = trim (inner @ w2)"
    by (simp only: strip_close_fence trim_def)
  then show ?thesis using w2 by (simp add: trim_append_ws)
qed

lemma trim_fenced_pad:
  assumes w0: "\<forall>c\<in>set w0. is_ws c" and w3: "\<forall>c\<in>set w3. is_ws c"
  shows "trim (w0 @ fence @ y @ fence @ w3) = fence @ y @ fence"
proof -
  have "trimmed (fence @ y @ fence)"
    by (simp add: trimmed_def fence_def not_ws_backquote)
  then have "trim (fence @ y @ fence) = fence @ y @ fence" by (rule trim_trimmed)
  moreover have "trim (w0 @ fence @ y @ fence @ w3) = trim ((fence @ y @ fence) @ w3)"
    using trim_prepend_ws [OF w0] by simp
  ultimately show ?thesis using trim_append_ws [OF w3, of "fence @ y @ fence"] by simp
qed

lemma sanitize_fenced_tag:
  assumes "\<forall>c\<in>set w0. is_ws c" "\<forall>c\<in>set w1. is_ws c" "\<forall>c\<in>set w2. is_ws c" "\<forall>c\<in>set w3. is_ws c"
    and "ci_json tag" "length tag = 4"
  shows "sanitize (w0 @ fence @ tag @ w1 @ inner @ w2 @ fence @ w3) = trim inner"
proof -
  have "trim (w0 @ fence @ (tag @ w1 @ inner @ w2) @ fence @ w3) = fence @ (tag @ w1 @ inner @ w2) @ fence"
    using assms(1,4) by (rule trim_fenced_pad)
  then have t: "trim (w0 @ fence @ tag @ w1 @ inner @ w2 @ fence @ w3) = fence @ tag @ w1 @ inner @ w2 @ fence"
    by simp
  have s: "startsWith (fence @ tag @ w1 @ inner @ w2 @ fence) fence"
    by (simp add: startsWith_def)
  show ?thesis
    unfolding sanitize_def Let_def t using s
    by (simp add: strip_open_tag [OF assms(5,6)] fenced_body [OF assms(2,3)])
qed

lemma sanitize_fenced_plain:
  assumes "\<forall>c\<in>set w0. is_ws c" "\<forall>c\<in>set w1. is_ws c" "\<forall>c\<in>set w2. is_ws c" "\<forall>c\<in>set w3. is_ws c"
    and nt: "w1 \<noteq> [] \<or> \<not> ci_json inner"
  shows "sanitize (w0 @ fence @ w1 @ inner @ w2 @ fence @ w3) = trim inner"
proof -
  have "trim (w0 @ fence @ (w1 @ inner @ w2) @ fence @ w3) = fence @ (w1 @ inner @ w2) @ fence"
    using assms(1,4) by (rule trim_fenced_pad)
  then have t: "trim (w0 @ fence @ w1 @ inner @ w2 @ fence @ w3) = fence @ w1 @ inner @ w2 @ fence"
    by simp
  have s: "startsWith (fence @ w1 @ inner @ w2 @ fence) fence"
    by (simp add: startsWith_def)
  have nj: "\<not> ci_json (w1 @ inner @ w2 @ fence)"
  proof
    assume cj: "ci_json (w1 @ inner @ w2 @ fence)"
    show False
    proof (cases "w1 = []")
      case False
      then have "is_ws (hd (w1 @ inner @ w2 @ fence))" using assms(2) by simp
      moreover have "\<not> is_ws (hd (w1 @ inner @ w2 @ fence))"
        using cj ci_letter_plain unfolding ci_json_nth
        by (metis hd_conv_nth length_0_conv not_numeral_le_zero)
      ultimately show False by simp
    next
      case True
      have "is_ws (hd (w2 @ fence)) \<or> hd (w2 @ fence) = backquote"
        using assms(3) by (cases w2) (simp_all add: fence_def)
      moreover have "w2 @ fence \<noteq> []" by (simp add: fence_def)
      moreover have "ci_json (inner @ w2 @ fence)" using cj True by simp
      ultimately have "ci_json inner"
        using ci_json_extend by blast
      with nt True show False by simp
    qed
  qed
  show ?thesis
    unfolding sanitize_def Let_def t using s
    by (simp add: strip_open_plain [OF nj] fenced_body [OF assms(2,3)])
qed

lemma sanitize_twice_fenced: "sanitize twice_fenced = fence @ js ''json'' @ nl @ js ''{}'' @ nl @ fence"
  by code_simp

lemma sanitize_inner_fenced: "sanitize (fence @ js ''json'' @ nl @ js ''{}'' @ nl @ fence) = js ''{}''"
  by code_simp

text \<open>
  C5, as stated. The step is not idempotent: each pass removes one pair of fences, so text
  wrapped in two fenced blocks is changed again by a second pass.
\<close>

theorem sanitize_not_idempotent:
  "sanitize (sanitize twice_fenced) \<noteq> sanitize twice_fenced"
  unfolding sanitize_twice_fenced sanitize_inner_fenced by code_simp

text \<open>
  C5, amended. Text that is trimmed and does not start with a fence is returned
  unchanged. A fenced block, with any white space around it and inside the fences, gives
  the trimmed inner text, with a \<open>json\<close> tag in any case and also with no tag; with no
  tag, white space must follow the opening fence or the inner text must not itself begin
  with the letters \<open>json\<close>. A second pass changes nothing whenever the result of the first
  does not begin with a fence.
\<close>

theorem sanitize_clean_and_fenced:
  "(trim t = t \<and> \<not> startsWith t fence \<longrightarrow> sanitize t = t)
   \<and> ((\<forall>c\<in>set (w0 @ w1 @ w2 @ w3). is_ws c) \<and> ci_json tag \<and> length tag = 4
      \<longrightarrow> sanitize (w0 @ fence @ tag @ w1 @ inner @ w2 @ fence @ w3) = trim inner)
   \<and> ((\<forall>c\<in>set (w0 @ w1 @ w2 @ w3). is_ws c) \<and> (w1 \<noteq> [] \<or> \<not> ci_json inner)
      \<longrightarrow> sanitize (w0 @ fence @ w1 @ inner @ w2 @ fence @ w3) = trim inner)
   \<and> (\<not> startsWith (sanitize x) fence \<longrightarrow> sanitize (sanitize x) = sanitize x)"
proof (intro conjI impI)
  assume "trim t = t \<and> \<not> startsWith t fence"
  then show "sanitize t = t" by (simp add: sanitize_clean)
next
  assume "(\<forall>c\<in>set (w0 @ w1 @ w2 @ w3). is_ws c) \<and> ci_json tag \<and> length tag = 4"
  then show "sanitize (w0 @ fence @ tag @ w1 @ inner @ w2 @ fence @ w3) = trim inner"
    by (intro sanitize_fenced_tag) auto
next
  assume "(\<forall>c\<in>set (w0 @ w1 @ w2 @ w3). is_ws c) \<and> (w1 \<noteq> [] \<or> \<not> ci_json inner)"
  then show "sanitize (w0 @ fence @ w1 @ inner @ w2 @ fence @ w3) = trim inner"
    by (intro sanitize_fenced_plain) auto
next
  assume "\<not> startsWith (sanitize x) fence"
  then show "sanitize (sanitize x) = sanitize x" by (rule sanitize_twice)
qed

theorem sanitize_clean_and_fenced_witness:
  "trim (js ''{}'') = js ''{}'' \<and> \<not> startsWith (js ''{}'') fence
   \<and> sanitize (js ''{}'') = js ''{}''
   \<and> list_all is_ws (js '' '' @ nl @ nl @ js '' '') \<and> ci_json (js ''JSON'')
   \<and> length (js ''JSON'') = 4 \<and> nl \<noteq> []
   \<and> sanitize (js '' '' @ fence @ js ''JSON'' @ nl @ js ''{}'' @ nl @ fence @ js '' '') = trim (js ''{}'')
   \<and> sanitize (js '' '' @ fence @ nl @ js ''{}'' @ nl @ fence @ js '' '') = trim (js ''{}'')
   \<and> \<not> startsWith (sanitize (fence @ js ''{}'' @ fence)) fence
   \<and> sanitize (sanitize (fence @ js ''{}'' @ fence)) = sanitize (fence @ js ''{}'' @ fence)"
proof -
  have a: "trim (js ''{}'') = js ''{}'' \<and> \<not> startsWith (js ''{}'') fence" by code_simp
  have b: "list_all is_ws (js '' '' @ nl @ nl @ js '' '') \<and> ci_json (js ''JSON'')
      \<and> length (js ''JSON'') = 4" by code_simp
  then have b': "\<forall>c\<in>set (js '' '' @ nl @ nl @ js '' ''). is_ws c"
    unfolding list_all_iff by blast
  have c: "\<not> startsWith (sanitize (fence @ js ''{}'' @ fence)) fence" by code_simp
  have d: "nl \<noteq> []" by (simp add: nl_def)
  from sanitize_clean_and_fenced
         [of "js ''{}''" "js '' ''" nl nl "js '' ''" "js ''JSON''" "js ''{}''" "fence @ js ''{}'' @ fence"]
       a b b' c d
  show ?thesis by blast
qed

section \<open>Schemas and the parser\<close>

lemma those_map_ok: "those (map f xs) \<noteq> None \<longleftrightarrow> list_all (\<lambda>x. f x \<noteq> None) xs"
  by (induction xs) (auto split: option.splits)

lemma z_string_ok: "z_string n v \<noteq> None \<longleftrightarrow> string_min n v"
  by (cases v) (auto simp: z_string_def string_min_def)

lemma z_array_ok:
  "z_array el lo (Some hi) v \<noteq> None \<longleftrightarrow>
     array_len (case lo of None \<Rightarrow> 0 | Some l \<Rightarrow> l) hi v \<and> list_all (\<lambda>x. el x \<noteq> None) (items v)"
  by (cases v; cases lo)
     (auto simp del: not_None_eq simp: z_array_def array_len_def items_def those_map_ok)

lemma z_object_ok:
  "z_object shape v \<noteq> None \<longleftrightarrow>
     (case v of JObj kvs \<Rightarrow> list_all (\<lambda>(k, z). z (get kvs k) \<noteq> None) shape | _ \<Rightarrow> False)"
  by (cases v) (auto simp: z_object_def Let_def list_all_iff)

lemma flashcard_schema_ok:
  "z_object [(js ''question'', z_string 5), (js ''answer'', z_string 5)] v \<noteq> None \<longleftrightarrow> flashcard_ok v"
  by (cases v) (simp_all del: not_None_eq add: z_object_ok z_string_ok flashcard_ok_def)

lemma InsightsSchema_ok: "InsightsSchema v \<noteq> None \<longleftrightarrow> within_bounds v \<and> items_ok v"
  by (cases v)
     (auto simp del: not_None_eq simp: InsightsSchema_def z_object_ok z_array_ok z_string_ok flashcard_schema_ok
        within_bounds_def items_ok_def flashcard_ok_def [abs_def])

lemma backquote_not_json: "JSON_parse (backquote # rest) = None"
  by (simp add: JSON_parse_def skip_ws_def json_ws_def backquote_def startsWith_def js_def
      parse_number_def is_digit_def)

lemma fenced_not_json: "startsWith s fence \<Longrightarrow> JSON_parse s = None"
  by (cases s) (simp_all add: startsWith_def fence_def backquote_not_json)

section \<open>The fuel of the parser\<close>

text \<open>
  More fuel never changes a result, every successful parse consumes input, and the fuel
  that \<open>JSON_parse\<close> gives is enough: whenever some amount of fuel parses a text,
  \<open>JSON_parse\<close> gives that result. So \<open>JSON_parse\<close> fails only on text that is not JSON.
\<close>

lemma skip_ws_length: "length (skip_ws s) \<le> length s"
  by (simp add: skip_ws_def length_dropWhile_le)

lemma parse_chars_shorter: "parse_chars acc s = Some (str, r) \<Longrightarrow> length r < length s"
proof (induction "length s" arbitrary: s acc rule: less_induct)
  case less
  show ?case
  proof (cases s)
    case Nil
    with less.prems show ?thesis by simp
  next
    case (Cons c cs)
    have "r = cs \<or> (\<exists>acc' s'. parse_chars acc' s' = Some (str, r) \<and> length s' \<le> length cs)"
      using less.prems unfolding Cons
      by (simp split: if_splits list.splits option.splits prod.splits)
         (metis le_refl le_SucI length_Cons)+
    then show ?thesis
    proof
      assume "r = cs"
      then show ?thesis by (simp add: Cons)
    next
      assume "\<exists>acc' s'. parse_chars acc' s' = Some (str, r) \<and> length s' \<le> length cs"
      then obtain acc' s' where p: "parse_chars acc' s' = Some (str, r)" and l: "length s' \<le> length cs"
        by blast
      from l have "length s' < length s" by (simp add: Cons)
      from less.hyps [OF this p] l show ?thesis by (simp add: Cons)
    qed
  qed
qed

lemma parse_frac_shorter: "parse_frac s = Some (p, r) \<Longrightarrow> length r \<le> length s"
  by (auto simp: parse_frac_def split: list.splits if_splits intro: le_SucI length_dropWhile_le)

lemma parse_exp_shorter: "parse_exp s = Some (p, r) \<Longrightarrow> length r \<le> length s"
proof -
  have d: "\<And>n xs. length (dropWhile is_digit (drop n xs)) \<le> length xs"
    by (metis diff_le_self le_trans length_drop length_dropWhile_le)
  assume "parse_exp s = Some (p, r)"
  then show ?thesis
    by (cases s) (auto simp: parse_exp_def Let_def split: if_splits intro: le_SucI d)
qed

lemma parse_number_shorter: "parse_number s = Some (lit, r) \<Longrightarrow> length r < length s"
proof -
  assume a: "parse_number s = Some (lit, r)"
  define sg where "sg = (case s of [] \<Rightarrow> [] | x # _ \<Rightarrow> if x = 0x2D then [x] else [])"
  from a obtain d s2 where s1: "drop (length sg) s = d # s2"
    by (auto simp: parse_number_def Let_def sg_def split: list.splits if_splits)
  define s3 where "s3 = (if d = 0x30 then s2 else dropWhile is_digit s2)"
  from a s1 obtain fp s4 ep where f: "parse_frac s3 = Some (fp, s4)" and e: "parse_exp s4 = Some (ep, r)"
    by (auto simp: parse_number_def Let_def sg_def [symmetric] s3_def split: if_splits option.splits)
  have "length s3 \<le> length s2" by (simp add: s3_def length_dropWhile_le)
  moreover have "length s2 < length s"
    using arg_cong [OF s1, of length] by simp
  ultimately show ?thesis
    using parse_frac_shorter [OF f] parse_exp_shorter [OF e] by simp
qed


lemma parse_value_obj:
  "parse_value (Suc n) (0x7B # cs) =
     (case skip_ws cs of [] \<Rightarrow> None
      | d # ds \<Rightarrow> if d = 0x7D then Some (JObj [], ds) else parse_members n [] (d # ds))"
  by simp

lemma parse_value_arr:
  "parse_value (Suc n) (0x5B # cs) =
     (case skip_ws cs of [] \<Rightarrow> None
      | d # ds \<Rightarrow> if d = 0x5D then Some (JArr [], ds) else parse_elements n [] (d # ds))"
  by simp

lemma parse_value_leaf:
  "c \<noteq> 0x7B \<Longrightarrow> c \<noteq> 0x5B \<Longrightarrow> parse_value (Suc n) (c # cs) = parse_value (Suc 0) (c # cs)"
  by simp

lemma fuel_step:
  "(\<forall>s r. parse_value n s = Some r \<longrightarrow> parse_value (Suc n) s = Some r)
   \<and> (\<forall>acc s r. parse_elements n acc s = Some r \<longrightarrow> parse_elements (Suc n) acc s = Some r)
   \<and> (\<forall>kvs s r. parse_members n kvs s = Some r \<longrightarrow> parse_members (Suc n) kvs s = Some r)"
proof (induction n)
  case 0
  show ?case by simp
next
  case (Suc n)
  then have v: "\<And>s r. parse_value n s = Some r \<Longrightarrow> parse_value (Suc n) s = Some r"
    and e: "\<And>acc s r. parse_elements n acc s = Some r \<Longrightarrow> parse_elements (Suc n) acc s = Some r"
    and m: "\<And>kvs s r. parse_members n kvs s = Some r \<Longrightarrow> parse_members (Suc n) kvs s = Some r"
    by blast+
  have pv: "parse_value (Suc (Suc n)) s = Some r" if h: "parse_value (Suc n) s = Some r" for s r
  proof (cases s)
    case Nil
    with h show ?thesis by simp
  next
    case (Cons c cs)
    consider "c = 0x7B" | "c = 0x5B" | "c \<noteq> 0x7B" "c \<noteq> 0x5B" by blast
    then show ?thesis
    proof cases
      case 1
      with h Cons m show ?thesis
        unfolding Cons 1 parse_value_obj
        by (auto split: list.splits if_splits simp del: parse_members.simps)
    next
      case 2
      with h Cons e show ?thesis
        unfolding Cons 2 parse_value_arr
        by (auto split: list.splits if_splits simp del: parse_elements.simps)
    next
      case 3
      with h show ?thesis
        unfolding Cons using parse_value_leaf [OF 3, of n cs] parse_value_leaf [OF 3, of "Suc n" cs]
        by simp
    qed
  qed
  have pe: "parse_elements (Suc (Suc n)) acc s = Some r" if h: "parse_elements (Suc n) acc s = Some r"
    for acc s r
  proof -
    from h obtain v' r1 where a: "parse_value n s = Some (v', r1)"
      by (auto split: option.splits)
    from v [OF a] have b: "parse_value (Suc n) s = Some (v', r1)" .
    have u1: "parse_elements (Suc n) acc s =
        (case skip_ws r1 of [] \<Rightarrow> None
         | c # cs \<Rightarrow> if c = 0x2C then parse_elements n (v' # acc) (skip_ws cs)
                    else if c = 0x5D then Some (JArr (rev (v' # acc)), cs) else None)"
      by (simp add: a)
    have u2: "parse_elements (Suc (Suc n)) acc s =
        (case skip_ws r1 of [] \<Rightarrow> None
         | c # cs \<Rightarrow> if c = 0x2C then parse_elements (Suc n) (v' # acc) (skip_ws cs)
                    else if c = 0x5D then Some (JArr (rev (v' # acc)), cs) else None)"
      by (simp add: b del: parse_value.simps)
    from h e show ?thesis
      unfolding u1 u2
      by (auto split: list.splits if_splits simp del: parse_elements.simps)
  qed
  have pm: "parse_members (Suc (Suc n)) kvs s = Some r" if h: "parse_members (Suc n) kvs s = Some r"
    for kvs s r
  proof -
    from h obtain s1 where s: "s = 0x22 # s1"
      by (cases s) (auto split: if_splits)
    from h s obtain k r1 where k: "parse_chars [] s1 = Some (k, r1)"
      by (auto split: option.splits)
    from h s k obtain r2 where c: "skip_ws r1 = 0x3A # r2"
      by (auto split: list.splits if_splits)
    from h s k c obtain v' r3 where a: "parse_value n (skip_ws r2) = Some (v', r3)"
      by (auto split: option.splits)
    from v [OF a] have b: "parse_value (Suc n) (skip_ws r2) = Some (v', r3)" .
    have u1: "parse_members (Suc n) kvs s =
        (case skip_ws r3 of [] \<Rightarrow> None
         | e # r4 \<Rightarrow> if e = 0x2C then parse_members n (AList.update k v' kvs) (skip_ws r4)
                    else if e = 0x7D then Some (JObj (AList.update k v' kvs), r4) else None)"
      by (simp add: s k c a)
    have u2: "parse_members (Suc (Suc n)) kvs s =
        (case skip_ws r3 of [] \<Rightarrow> None
         | e # r4 \<Rightarrow> if e = 0x2C then parse_members (Suc n) (AList.update k v' kvs) (skip_ws r4)
                    else if e = 0x7D then Some (JObj (AList.update k v' kvs), r4) else None)"
      by (simp add: s k c b del: parse_value.simps)
    from h m show ?thesis
      unfolding u1 u2
      by (auto split: list.splits if_splits simp del: parse_members.simps)
  qed
  from pv pe pm show ?case by blast
qed

lemma fuel_mono:
  assumes "n \<le> m"
  shows "parse_value n s = Some r \<Longrightarrow> parse_value m s = Some r"
    and "parse_elements n acc s = Some r \<Longrightarrow> parse_elements m acc s = Some r"
    and "parse_members n kvs s = Some r \<Longrightarrow> parse_members m kvs s = Some r"
  using assms by (induction rule: dec_induct) (use fuel_step in blast)+


lemma skip_ws_Cons: "skip_ws r = c # cs \<Longrightarrow> length cs < length r"
  using skip_ws_length [of r] by simp

lemma parse_value_leaf_shorter:
  assumes "c \<noteq> 0x7B" "c \<noteq> 0x5B" and "parse_value (Suc 0) (c # cs) = Some (v, r)"
  shows "length r < length (c # cs)"
proof -
  have dr: "\<And>p. startsWith (c # cs) p \<Longrightarrow> p \<noteq> [] \<Longrightarrow> length (drop (length p) (c # cs)) < length (c # cs)"
    by (cases "length p") auto
  have l: "length (js ''true'') = 4" "length (js ''false'') = 5" "length (js ''null'') = 4"
    "js ''true'' \<noteq> []" "js ''false'' \<noteq> []" "js ''null'' \<noteq> []"
    by (simp_all add: js_def)
  from assms(3) consider
      (str) s' where "parse_chars [] cs = Some (s', r)"
    | (t) "startsWith (c # cs) (js ''true'')" "r = drop 4 (c # cs)"
    | (f) "startsWith (c # cs) (js ''false'')" "r = drop 5 (c # cs)"
    | (n) "startsWith (c # cs) (js ''null'')" "r = drop 4 (c # cs)"
    | (num) lit where "parse_number (c # cs) = Some (lit, r)"
    using assms(1,2) by (auto split: if_splits option.splits)
  then show ?thesis
  proof cases
    case str
    from parse_chars_shorter [OF str] show ?thesis by simp
  next
    case t
    with dr [of "js ''true''"] l show ?thesis by simp
  next
    case f
    with dr [of "js ''false''"] l show ?thesis by simp
  next
    case n
    with dr [of "js ''null''"] l show ?thesis by simp
  next
    case num
    from parse_number_shorter [OF num] show ?thesis .
  qed
qed


lemma consumes_step:
  "(\<forall>s v r. parse_value n s = Some (v, r) \<longrightarrow> length r < length s)
   \<and> (\<forall>acc s v r. parse_elements n acc s = Some (v, r) \<longrightarrow> length r < length s)
   \<and> (\<forall>kvs s v r. parse_members n kvs s = Some (v, r) \<longrightarrow> length r < length s)"
proof (induction n)
  case 0
  show ?case by simp
next
  case (Suc n)
  then have v: "\<And>s v r. parse_value n s = Some (v, r) \<Longrightarrow> length r < length s"
    and e: "\<And>acc s v r. parse_elements n acc s = Some (v, r) \<Longrightarrow> length r < length s"
    and m: "\<And>kvs s v r. parse_members n kvs s = Some (v, r) \<Longrightarrow> length r < length s"
    by blast+
  have pv: "length r < length s" if h: "parse_value (Suc n) s = Some (w, r)" for s w r
  proof (cases s)
    case Nil
    with h show ?thesis by simp
  next
    case (Cons c cs)
    consider "c = 0x7B" | "c = 0x5B" | "c \<noteq> 0x7B" "c \<noteq> 0x5B" by blast
    then show ?thesis
    proof cases
      case 1
      from h obtain d ds where sk: "skip_ws cs = d # ds"
        unfolding Cons 1 parse_value_obj by (auto split: list.splits)
      from h sk have "r = ds \<or> parse_members n [] (d # ds) = Some (w, r)"
        unfolding Cons 1 parse_value_obj by (auto split: if_splits simp del: parse_members.simps)
      then have "length r \<le> length ds"
        using m [of "[]" "d # ds" w r] by auto
      with skip_ws_Cons [OF sk] show ?thesis by (simp add: Cons)
    next
      case 2
      from h obtain d ds where sk: "skip_ws cs = d # ds"
        unfolding Cons 2 parse_value_arr by (auto split: list.splits)
      from h sk have "r = ds \<or> parse_elements n [] (d # ds) = Some (w, r)"
        unfolding Cons 2 parse_value_arr by (auto split: if_splits simp del: parse_elements.simps)
      then have "length r \<le> length ds"
        using e [of "[]" "d # ds" w r] by auto
      with skip_ws_Cons [OF sk] show ?thesis by (simp add: Cons)
    next
      case 3
      from h have "parse_value (Suc 0) (c # cs) = Some (w, r)"
        unfolding Cons using parse_value_leaf [OF 3, of n cs] by simp
      from parse_value_leaf_shorter [OF 3 this] show ?thesis by (simp add: Cons)
    qed
  qed
  have pe: "length r < length s" if h: "parse_elements (Suc n) acc s = Some (w, r)" for acc s w r
  proof -
    from h obtain v' r1 where a: "parse_value n s = Some (v', r1)"
      by (auto split: option.splits)
    have u1: "parse_elements (Suc n) acc s =
        (case skip_ws r1 of [] \<Rightarrow> None
         | c # cs \<Rightarrow> if c = 0x2C then parse_elements n (v' # acc) (skip_ws cs)
                    else if c = 0x5D then Some (JArr (rev (v' # acc)), cs) else None)"
      by (simp add: a)
    from h obtain c cs where sk: "skip_ws r1 = c # cs"
      unfolding u1 by (auto split: list.splits)
    from h sk have "r = cs \<or> parse_elements n (v' # acc) (skip_ws cs) = Some (w, r)"
      unfolding u1 by (auto split: if_splits simp del: parse_elements.simps)
    then have "length r \<le> length cs"
      using e [of "v' # acc" "skip_ws cs" w r] skip_ws_length [of cs] by auto
    with skip_ws_Cons [OF sk] v [OF a] show ?thesis by simp
  qed
  have pm: "length r < length s" if h: "parse_members (Suc n) kvs s = Some (w, r)" for kvs s w r
  proof -
    from h obtain s1 where s: "s = 0x22 # s1"
      by (cases s) (auto split: if_splits)
    from h s obtain k r1 where k: "parse_chars [] s1 = Some (k, r1)"
      by (auto split: option.splits)
    from h s k obtain r2 where c: "skip_ws r1 = 0x3A # r2"
      by (auto split: list.splits if_splits)
    from h s k c obtain v' r3 where a: "parse_value n (skip_ws r2) = Some (v', r3)"
      by (auto split: option.splits)
    have u1: "parse_members (Suc n) kvs s =
        (case skip_ws r3 of [] \<Rightarrow> None
         | e # r4 \<Rightarrow> if e = 0x2C then parse_members n (AList.update k v' kvs) (skip_ws r4)
                    else if e = 0x7D then Some (JObj (AList.update k v' kvs), r4) else None)"
      by (simp add: s k c a)
    from h obtain e' r4 where sk: "skip_ws r3 = e' # r4"
      unfolding u1 by (auto split: list.splits)
    from h sk have "r = r4 \<or> parse_members n (AList.update k v' kvs) (skip_ws r4) = Some (w, r)"
      unfolding u1 by (auto split: if_splits simp del: parse_members.simps)
    then have "length r \<le> length r4"
      using m [of "AList.update k v' kvs" "skip_ws r4" w r] skip_ws_length [of r4] by auto
    with skip_ws_Cons [OF sk] v [OF a] skip_ws_length [of r2] skip_ws_Cons [OF c]
         parse_chars_shorter [OF k]
    show ?thesis by (simp add: s)
  qed
  from pv pe pm show ?case by blast
qed


lemma parse_value_shorter: "parse_value n s = Some (v, r) \<Longrightarrow> length r < length s"
  using consumes_step [of n] by blast

lemma enough_step:
  "(\<forall>s r. parse_value n s = Some r \<longrightarrow> parse_value (2 * length s + 1) s = Some r)
   \<and> (\<forall>acc s r. parse_elements n acc s = Some r \<longrightarrow> parse_elements (2 * length s + 2) acc s = Some r)
   \<and> (\<forall>kvs s r. parse_members n kvs s = Some r \<longrightarrow> parse_members (2 * length s + 2) kvs s = Some r)"
proof (induction n)
  case 0
  show ?case by simp
next
  case (Suc n)
  then have v: "\<And>s r. parse_value n s = Some r \<Longrightarrow> parse_value (2 * length s + 1) s = Some r"
    and e: "\<And>acc s r. parse_elements n acc s = Some r
              \<Longrightarrow> parse_elements (2 * length s + 2) acc s = Some r"
    and m: "\<And>kvs s r. parse_members n kvs s = Some r
              \<Longrightarrow> parse_members (2 * length s + 2) kvs s = Some r"
    by blast+
  have pv: "parse_value (2 * length s + 1) s = Some r" if h: "parse_value (Suc n) s = Some r" for s r
  proof (cases s)
    case Nil
    with h show ?thesis by simp
  next
    case (Cons c cs)
    define G where "G = 2 * length cs + 2"
    have fuel: "2 * length s + 1 = Suc G" by (simp add: Cons G_def)
    consider "c = 0x7B" | "c = 0x5B" | "c \<noteq> 0x7B" "c \<noteq> 0x5B" by blast
    then show ?thesis
    proof cases
      case 1
      from h obtain d ds where sk: "skip_ws cs = d # ds"
        unfolding Cons 1 parse_value_obj by (auto split: list.splits)
      show ?thesis
      proof (cases "d = 0x7D")
        case True
        with h sk show ?thesis unfolding fuel unfolding Cons 1 parse_value_obj by simp
      next
        case False
        with h sk have "parse_members n [] (d # ds) = Some r"
          unfolding Cons 1 parse_value_obj by (simp del: parse_members.simps)
        from m [OF this] have "parse_members (2 * length (d # ds) + 2) [] (d # ds) = Some r" .
        moreover have "2 * length (d # ds) + 2 \<le> G"
          using skip_ws_length [of cs] sk by (simp add: G_def)
        ultimately have "parse_members G [] (d # ds) = Some r"
          by (rule fuel_mono(3) [rotated])
        with sk False show ?thesis
          unfolding fuel unfolding Cons 1 parse_value_obj by (simp del: parse_members.simps)
      qed
    next
      case 2
      from h obtain d ds where sk: "skip_ws cs = d # ds"
        unfolding Cons 2 parse_value_arr by (auto split: list.splits)
      show ?thesis
      proof (cases "d = 0x5D")
        case True
        with h sk show ?thesis unfolding fuel unfolding Cons 2 parse_value_arr by simp
      next
        case False
        with h sk have "parse_elements n [] (d # ds) = Some r"
          unfolding Cons 2 parse_value_arr by (simp del: parse_elements.simps)
        from e [OF this] have "parse_elements (2 * length (d # ds) + 2) [] (d # ds) = Some r" .
        moreover have "2 * length (d # ds) + 2 \<le> G"
          using skip_ws_length [of cs] sk by (simp add: G_def)
        ultimately have "parse_elements G [] (d # ds) = Some r"
          by (rule fuel_mono(2) [rotated])
        with sk False show ?thesis
          unfolding fuel unfolding Cons 2 parse_value_arr by (simp del: parse_elements.simps)
      qed
    next
      case 3
      from h show ?thesis
        unfolding fuel unfolding Cons
        using parse_value_leaf [OF 3, of n cs] parse_value_leaf [OF 3, of G cs]
        by simp
    qed
  qed
  have pe: "parse_elements (2 * length s + 2) acc s = Some r" if h: "parse_elements (Suc n) acc s = Some r"
    for acc s r
  proof -
    from h obtain v' r1 where a: "parse_value n s = Some (v', r1)"
      by (auto split: option.splits)
    define F where "F = 2 * length s + 1"
    from v [OF a] have b: "parse_value F s = Some (v', r1)" by (simp add: F_def)
    have fuel: "2 * length s + 2 = Suc F" by (simp add: F_def)
    have u1: "parse_elements (Suc n) acc s =
        (case skip_ws r1 of [] \<Rightarrow> None
         | c # cs \<Rightarrow> if c = 0x2C then parse_elements n (v' # acc) (skip_ws cs)
                    else if c = 0x5D then Some (JArr (rev (v' # acc)), cs) else None)"
      by (simp add: a)
    have u2: "parse_elements (Suc F) acc s =
        (case skip_ws r1 of [] \<Rightarrow> None
         | c # cs \<Rightarrow> if c = 0x2C then parse_elements F (v' # acc) (skip_ws cs)
                    else if c = 0x5D then Some (JArr (rev (v' # acc)), cs) else None)"
      by (simp add: b del: parse_value.simps)
    from h obtain c cs where sk: "skip_ws r1 = c # cs"
      unfolding u1 by (auto split: list.splits)
    show ?thesis
    proof (cases "c = 0x2C")
      case False
      with h sk show ?thesis unfolding fuel u1 u2 by simp
    next
      case True
      with h sk have "parse_elements n (v' # acc) (skip_ws cs) = Some r"
        unfolding u1 by (simp del: parse_elements.simps)
      from e [OF this]
      have "parse_elements (2 * length (skip_ws cs) + 2) (v' # acc) (skip_ws cs) = Some r" .
      moreover have "2 * length (skip_ws cs) + 2 \<le> F"
        using skip_ws_length [of cs] skip_ws_Cons [OF sk] parse_value_shorter [OF a]
        by (simp add: F_def)
      ultimately have "parse_elements F (v' # acc) (skip_ws cs) = Some r"
        by (rule fuel_mono(2) [rotated])
      with sk True show ?thesis unfolding fuel u2 by (simp del: parse_elements.simps)
    qed
  qed
  have pm: "parse_members (2 * length s + 2) kvs s = Some r" if h: "parse_members (Suc n) kvs s = Some r"
    for kvs s r
  proof -
    from h obtain s1 where s: "s = 0x22 # s1"
      by (cases s) (auto split: if_splits)
    from h s obtain k r1 where k: "parse_chars [] s1 = Some (k, r1)"
      by (auto split: option.splits)
    from h s k obtain r2 where c: "skip_ws r1 = 0x3A # r2"
      by (auto split: list.splits if_splits)
    from h s k c obtain v' r3 where a: "parse_value n (skip_ws r2) = Some (v', r3)"
      by (auto split: option.splits)
    have l2: "length (skip_ws r2) < length s"
      using skip_ws_length [of r2] skip_ws_Cons [OF c] parse_chars_shorter [OF k] by (simp add: s)
    define F where "F = 2 * length s + 1"
    from v [OF a] have "parse_value (2 * length (skip_ws r2) + 1) (skip_ws r2) = Some (v', r3)" .
    moreover have "2 * length (skip_ws r2) + 1 \<le> F" using l2 by (simp add: F_def)
    ultimately have b: "parse_value F (skip_ws r2) = Some (v', r3)"
      by (rule fuel_mono(1) [rotated])
    have fuel: "2 * length s + 2 = Suc F" by (simp add: F_def)
    have u1: "parse_members (Suc n) kvs s =
        (case skip_ws r3 of [] \<Rightarrow> None
         | e # r4 \<Rightarrow> if e = 0x2C then parse_members n (AList.update k v' kvs) (skip_ws r4)
                    else if e = 0x7D then Some (JObj (AList.update k v' kvs), r4) else None)"
      by (simp add: s k c a)
    have u2: "parse_members (Suc F) kvs s =
        (case skip_ws r3 of [] \<Rightarrow> None
         | e # r4 \<Rightarrow> if e = 0x2C then parse_members F (AList.update k v' kvs) (skip_ws r4)
                    else if e = 0x7D then Some (JObj (AList.update k v' kvs), r4) else None)"
      using b by (simp add: s k c del: parse_value.simps)
    from h obtain e' r4 where sk: "skip_ws r3 = e' # r4"
      unfolding u1 by (auto split: list.splits)
    show ?thesis
    proof (cases "e' = 0x2C")
      case False
      with h sk show ?thesis unfolding fuel u1 u2 by simp
    next
      case True
      with h sk have "parse_members n (AList.update k v' kvs) (skip_ws r4) = Some r"
        unfolding u1 by (simp del: parse_members.simps)
      from m [OF this]
      have "parse_members (2 * length (skip_ws r4) + 2) (AList.update k v' kvs) (skip_ws r4) = Some r" .
      moreover have "2 * length (skip_ws r4) + 2 \<le> F"
        using skip_ws_length [of r4] skip_ws_Cons [OF sk] parse_value_shorter [OF a] l2
        by (simp add: F_def)
      ultimately have "parse_members F (AList.update k v' kvs) (skip_ws r4) = Some r"
        by (rule fuel_mono(3) [rotated])
      with sk True show ?thesis unfolding fuel u2 by (simp del: parse_members.simps)
    qed
  qed
  from pv pe pm show ?case by blast
qed

lemma JSON_parse_fuel:
  assumes "parse_value n (skip_ws src) = Some (v, r)"
  shows "JSON_parse src = (if skip_ws r = [] then Some v else None)"
proof -
  define F where "F = 2 * length src + 2"
  from assms enough_step [of n]
  have "parse_value (2 * length (skip_ws src) + 1) (skip_ws src) = Some (v, r)" by blast
  moreover have "2 * length (skip_ws src) + 1 \<le> F"
    using skip_ws_length [of src] by (simp add: F_def)
  ultimately have "parse_value F (skip_ws src) = Some (v, r)"
    by (rule fuel_mono(1) [rotated])
  then show ?thesis by (simp add: JSON_parse_def F_def)
qed

section \<open>Steps of the pipeline\<close>

lemma commit_simps:
  "sess (commit ws \<sigma>) = foldl (\<lambda>s w. w s) (sess \<sigma>) ws"
  "runs (commit ws \<sigma>) = runs \<sigma>"
  "calls (commit ws \<sigma>) = calls \<sigma>"
  "hist (commit ws \<sigma>) = hist \<sigma> @ writes ws (sess \<sigma>)"
  by (simp_all add: commit_def)

lemmas writes_defs = start_writes_def transcribed_writes_def fallback_writes_def ready_writes_def
  failed_writes_def reprocess_writes_def

lemma trim_empty_len: "t = [] \<Longrightarrow> length (trim t) < 20"
  by (simp add: trim_def)

lemma guard_iff: "(t = [] \<or> length (trim t) < 20) \<longleftrightarrow> length (trim t) < 20"
  using trim_empty_len by blast

lemma after_long:
  assumes "20 \<le> length (trim t)"
  shows "calls (after_transcription i t now \<sigma>) = calls \<sigma> @ [InsightsChat t]"
    and "runs (after_transcription i t now \<sigma>) = (runs \<sigma>)[i := AwaitChat t]"
    and "status (sess (after_transcription i t now \<sigma>)) = Transcribed"
    and "insights (sess (after_transcription i t now \<sigma>)) = insights (sess \<sigma>)"
proof -
  from assms have g: "\<not> (t = [] \<or> length (trim t) < 20)" using guard_iff [of t] by simp
  show "calls (after_transcription i t now \<sigma>) = calls \<sigma> @ [InsightsChat t]"
    and "runs (after_transcription i t now \<sigma>) = (runs \<sigma>)[i := AwaitChat t]"
    and "status (sess (after_transcription i t now \<sigma>)) = Transcribed"
    and "insights (sess (after_transcription i t now \<sigma>)) = insights (sess \<sigma>)"
    unfolding after_transcription_def Let_def if_not_P [OF g]
    by (simp_all add: commit_simps writes_defs)
qed

lemma after_short:
  assumes "length (trim t) < 20"
  shows "calls (after_transcription i t now \<sigma>) = calls \<sigma>"
    and "runs (after_transcription i t now \<sigma>) = (runs \<sigma>)[i := Finished]"
    and "status (sess (after_transcription i t now \<sigma>)) = Ready"
    and "insights (sess (after_transcription i t now \<sigma>)) = Some fallback_insights"
    and "progress (sess (after_transcription i t now \<sigma>)) = 100"
proof -
  from assms have g: "t = [] \<or> length (trim t) < 20" by simp
  show "calls (after_transcription i t now \<sigma>) = calls \<sigma>"
    and "runs (after_transcription i t now \<sigma>) = (runs \<sigma>)[i := Finished]"
    and "status (sess (after_transcription i t now \<sigma>)) = Ready"
    and "insights (sess (after_transcription i t now \<sigma>)) = Some fallback_insights"
    and "progress (sess (after_transcription i t now \<sigma>)) = 100"
    unfolding after_transcription_def Let_def if_P [OF g]
    by (simp_all add: commit_simps writes_defs)
qed

lemma failed_fields:
  "status (sess (commit (failed_writes m) \<sigma>)) = Failed"
  "progress (sess (commit (failed_writes m) \<sigma>)) = 0"
  "error (sess (commit (failed_writes m) \<sigma>)) = Some (if m = [] then js ''Unknown error'' else m)"
  "insights (sess (commit (failed_writes m) \<sigma>)) = insights (sess \<sigma>)"
  by (simp_all add: commit_simps writes_defs)

lemma same_identity_refl: "same_identity s s"
  by (simp add: same_identity_def)

lemma commit_identity:
  "same_identity s (sess (commit start_writes \<sigma>)) = same_identity s (sess \<sigma>)"
  "same_identity s (sess (commit (transcribed_writes t) \<sigma>)) = same_identity s (sess \<sigma>)"
  "same_identity s (sess (commit (fallback_writes now) \<sigma>)) = same_identity s (sess \<sigma>)"
  "same_identity s (sess (commit (ready_writes v now) \<sigma>)) = same_identity s (sess \<sigma>)"
  "same_identity s (sess (commit (failed_writes m) \<sigma>)) = same_identity s (sess \<sigma>)"
  "same_identity s (sess (commit reprocess_writes \<sigma>)) = same_identity s (sess \<sigma>)"
  by (simp_all add: same_identity_def commit_simps writes_defs)

lemma spawn_identity: "same_identity s (sess (spawn e found \<sigma>)) = same_identity s (sess \<sigma>)"
  by (simp add: spawn_def Let_def commit_identity split: option.splits)

lemma fire_identity: "same_identity s (sess (fire ev \<sigma>)) = same_identity s (sess \<sigma>)"
  by (cases ev)
     (simp_all add: whisper_done_def chat_done_def after_transcription_def reprocess_def Let_def
        commit_identity spawn_identity split: sum.splits run.splits)

lemma exec_identity: "same_identity s (sess (exec evs \<sigma>)) = same_identity s (sess \<sigma>)"
  by (induction evs arbitrary: \<sigma>) (simp_all add: fire_identity)

lemma reprocess_reset:
  "sess (commit reprocess_writes \<sigma>) =
     (sess \<sigma>)\<lparr>status := Processing, progress := 0, error := None, transcript := [],
              insights := None, processedAt := None\<rparr>"
  by (simp add: commit_simps writes_defs)

lemma only_last_waits:
  assumes "list_all (\<lambda>r. r = Finished) (butlast rs)" and "i < length rs" and "rs ! i \<noteq> Finished"
  shows "i = length rs - 1"
proof (rule ccontr)
  assume "i \<noteq> length rs - 1"
  with assms(2) have lt: "i < length (butlast rs)" by simp
  then have "butlast rs ! i = Finished" using assms(1) by (simp add: list_all_length)
  with lt assms(3) show False by (simp add: nth_butlast)
qed

lemma rest_inv_update:
  assumes inv: "rest_inv \<sigma>" and i: "i < length (runs \<sigma>)" and w: "runs \<sigma> ! i \<noteq> Finished"
  shows "butlast ((runs \<sigma>)[i := r]) = butlast (runs \<sigma>)"
    and "last ((runs \<sigma>)[i := r]) = r"
    and "last (runs \<sigma>) = runs \<sigma> ! i"
    and "(runs \<sigma>)[i := r] \<noteq> []"
proof -
  from inv have ne: "runs \<sigma> \<noteq> []" and fin: "list_all (\<lambda>r. r = Finished) (butlast (runs \<sigma>))"
    by (simp_all add: rest_inv_def)
  from only_last_waits [OF fin i w] have e: "i = length (runs \<sigma>) - 1" .
  show "butlast ((runs \<sigma>)[i := r]) = butlast (runs \<sigma>)" using e by (simp add: butlast_list_update)
  show "last ((runs \<sigma>)[i := r]) = r" using e ne by (simp add: last_list_update)
  show "last (runs \<sigma>) = runs \<sigma> ! i" using e ne by (simp add: last_conv_nth)
  show "(runs \<sigma>)[i := r] \<noteq> []" using ne by simp
qed

lemma rest_inv_whisper: "rest_inv \<sigma> \<Longrightarrow> rest_inv (whisper_done i reply now \<sigma>)"
proof (cases "i < length (runs \<sigma>) \<and> runs \<sigma> ! i = AwaitWhisper")
  case False
  assume "rest_inv \<sigma>"
  with False show ?thesis unfolding whisper_done_def by auto
next
  case True
  assume inv: "rest_inv \<sigma>"
  from True have i: "i < length (runs \<sigma>)" and w: "runs \<sigma> ! i \<noteq> Finished" by simp_all
  note u = rest_inv_update [OF inv i w]
  from inv u(3) True have st: "status (sess \<sigma>) = Processing" "insights (sess \<sigma>) = None"
    by (simp_all add: rest_inv_def)
  from inv have fin: "list_all (\<lambda>r. r = Finished) (butlast (runs \<sigma>))" by (simp add: rest_inv_def)
  show ?thesis
    using True st fin u(1,2,4)
    by (auto simp: whisper_done_def after_transcription_def Let_def rest_inv_def at_rest_ok_def
        commit_simps writes_defs split: sum.splits)
qed

lemma rest_inv_chat: "rest_inv \<sigma> \<Longrightarrow> rest_inv (chat_done i reply now \<sigma>)"
proof (cases "i < length (runs \<sigma>) \<and> (\<exists>t. runs \<sigma> ! i = AwaitChat t)")
  case False
  assume "rest_inv \<sigma>"
  with False show ?thesis by (auto simp: chat_done_def split: run.splits)
next
  case True
  assume inv: "rest_inv \<sigma>"
  from True obtain t where t: "runs \<sigma> ! i = AwaitChat t" by blast
  from True t have i: "i < length (runs \<sigma>)" and w: "runs \<sigma> ! i \<noteq> Finished" by simp_all
  note u = rest_inv_update [OF inv i w]
  from inv u(3) t have st: "status (sess \<sigma>) = Transcribed" "insights (sess \<sigma>) = None"
    by (simp_all add: rest_inv_def)
  from inv have fin: "list_all (\<lambda>r. r = Finished) (butlast (runs \<sigma>))" by (simp add: rest_inv_def)
  show ?thesis
    using i t st fin u(1,2,4)
    by (auto simp: chat_done_def rest_inv_def at_rest_ok_def commit_simps writes_defs
        split: sum.splits)
qed

lemma rest_inv_spawn:
  assumes "idle \<sigma>" and "status (sess \<sigma>) = Processing" and "insights (sess \<sigma>) = None"
  shows "rest_inv (spawn e (Some s) \<sigma>)"
  using assms
  by (auto simp: spawn_def Let_def rest_inv_def at_rest_ok_def idle_def commit_simps writes_defs
      split: option.splits)

lemma rest_inv_reprocess: "idle \<sigma> \<Longrightarrow> rest_inv (reprocess e \<sigma>)"
  unfolding reprocess_def Let_def
  by (rule rest_inv_spawn) (simp_all add: idle_def commit_simps writes_defs)

lemma rest_inv_create: "rest_inv (create u e)"
  unfolding create_def
  by (rule rest_inv_spawn) (simp_all add: idle_def new_session_def fresh_def)

lemma rest_inv_fire:
  "rest_inv \<sigma> \<Longrightarrow> (case ev of Reprocess _ \<Rightarrow> idle \<sigma> | _ \<Rightarrow> True) \<Longrightarrow> rest_inv (fire ev \<sigma>)"
  by (cases ev) (simp_all add: rest_inv_whisper rest_inv_chat rest_inv_reprocess)

lemma rest_inv_exec: "rest_inv \<sigma> \<Longrightarrow> serial evs \<sigma> \<Longrightarrow> rest_inv (exec evs \<sigma>)"
  by (induction evs arbitrary: \<sigma>) (simp_all add: rest_inv_fire)

lemma rest_inv_at_rest: "rest_inv \<sigma> \<Longrightarrow> at_rest_ok (sess \<sigma>)"
  by (auto simp: rest_inv_def at_rest_ok_def split: run.splits)

lemma serial_take: "serial evs \<sigma> \<Longrightarrow> serial (take n evs) \<sigma>"
proof (induction evs arbitrary: n \<sigma>)
  case Nil
  then show ?case by simp
next
  case (Cons ev evs)
  then show ?case by (cases n) simp_all
qed

lemma run_alone_cases:
  assumes "status s = Processing" and "progress s = 0"
  shows "successively (\<lambda>a b. step_ok (status a) (status b)) (run_alone e wr n1 cr n2 s)
    \<and> list_all (\<lambda>x. progress x \<in> {0, 10, 60, 100}) (run_alone e wr n1 cr n2 s)
    \<and> (status (last (run_alone e wr n1 cr n2 s)) = Ready \<longrightarrow> sorted (map progress (run_alone e wr n1 cr n2 s)))
    \<and> (status (last (run_alone e wr n1 cr n2 s)) = Failed \<longrightarrow> progress (last (run_alone e wr n1 cr n2 s)) = 0)
    \<and> status (last (run_alone e wr n1 cr n2 s)) \<in> {Ready, Failed}"
  using assms
  by (auto simp: run_alone_def fresh_def spawn_def whisper_done_def chat_done_def after_transcription_def
      Let_def commit_simps writes_defs step_ok_def
      split: option.splits sum.splits)

lemma progress_ok_commit:
  assumes "progress_ok \<sigma>"
  shows "progress_ok (commit start_writes \<sigma>)"
    and "progress_ok (commit (transcribed_writes t) \<sigma>)"
    and "progress_ok (commit (fallback_writes now) \<sigma>)"
    and "progress_ok (commit (ready_writes v now) \<sigma>)"
    and "progress_ok (commit (failed_writes m) \<sigma>)"
    and "progress_ok (commit reprocess_writes \<sigma>)"
  using assms by (simp_all add: progress_ok_def commit_simps writes_defs)

lemma progress_ok_frame:
  "progress_ok (\<sigma>\<lparr>runs := rs\<rparr>) = progress_ok \<sigma>"
  "progress_ok (\<sigma>\<lparr>runs := rs, calls := cs\<rparr>) = progress_ok \<sigma>"
  by (simp_all add: progress_ok_def)

lemma progress_ok_spawn: "progress_ok \<sigma> \<Longrightarrow> progress_ok (spawn e found \<sigma>)"
  by (simp add: spawn_def Let_def progress_ok_frame progress_ok_commit split: option.splits)

lemma progress_ok_fire: "progress_ok \<sigma> \<Longrightarrow> progress_ok (fire ev \<sigma>)"
  by (cases ev)
     (simp_all add: whisper_done_def chat_done_def after_transcription_def reprocess_def Let_def
        progress_ok_frame progress_ok_commit progress_ok_spawn split: sum.splits run.splits)

lemma progress_ok_exec: "progress_ok \<sigma> \<Longrightarrow> progress_ok (exec evs \<sigma>)"
  by (induction evs arbitrary: \<sigma>) (simp_all add: progress_ok_fire)

lemma progress_ok_create: "progress_ok (create u e)"
  unfolding create_def
  by (rule progress_ok_spawn) (simp add: progress_ok_def fresh_def new_session_def)

lemma ready_commit:
  "ready_has_insights (sess (commit start_writes \<sigma>))"
  "ready_has_insights (sess (commit (transcribed_writes t) \<sigma>))"
  "ready_has_insights (sess (commit (fallback_writes now) (commit (transcribed_writes t) \<sigma>)))"
  "ready_has_insights (sess (commit (ready_writes v now) \<sigma>))"
  "ready_has_insights (sess (commit (failed_writes m) \<sigma>))"
  "ready_has_insights (sess (commit (failed_writes m) (commit start_writes \<sigma>)))"
  by (simp_all add: ready_has_insights_def commit_simps writes_defs)

lemma ready_spawn: "ready_has_insights (sess (spawn e found \<sigma>))"
  by (simp add: spawn_def Let_def ready_commit split: option.splits)

lemma ready_fire: "ready_has_insights (sess \<sigma>) \<Longrightarrow> ready_has_insights (sess (fire ev \<sigma>))"
  by (cases ev)
     (simp_all add: whisper_done_def chat_done_def after_transcription_def reprocess_def Let_def
        ready_commit ready_spawn split: sum.splits run.splits)

lemma ready_exec: "ready_has_insights (sess \<sigma>) \<Longrightarrow> ready_has_insights (sess (exec evs \<sigma>))"
  by (induction evs arbitrary: \<sigma>) (simp_all add: ready_fire)

lemma ready_create: "ready_has_insights (sess (create u e))"
  by (simp add: create_def ready_spawn)

section \<open>The claims\<close>

lemma created_waits:
  "0 < length (runs (create demo_upload demo_env)) \<and> runs (create demo_upload demo_env) ! 0 = AwaitWhisper"
  by code_simp

lemma demo_transcript_long: "20 \<le> length (trim demo_transcript)"
  by code_simp

lemma um_short: "length (trim (js ''um'')) < 20"
  by code_simp

text \<open>
  C1. When a run continues with its transcript, it sends the chat request of
  \<open>generateInsightsFromTranscript\<close> and waits for the reply exactly when the trimmed
  transcript has at least 20 code units. Otherwise it sends nothing, is finished, and has
  stored the fixed fallback result with status \<open>ready\<close>: the object with the summary
  that the recording had not enough audible content, no key concepts, no flashcards, and
  the three action items to record again, to bring the microphone close and to avoid
  silences, in the words of the source. The transcript that \<open>processSession\<close> continues
  with is the trimmed reply of the transcription service.
\<close>

theorem short_transcript_guard:
  "(20 \<le> length (trim t) \<longrightarrow>
      calls (after_transcription i t now \<sigma>) = calls \<sigma> @ [InsightsChat t]
      \<and> runs (after_transcription i t now \<sigma>) = (runs \<sigma>)[i := AwaitChat t]
      \<and> status (sess (after_transcription i t now \<sigma>)) = Transcribed)
   \<and> (length (trim t) < 20 \<longrightarrow>
      calls (after_transcription i t now \<sigma>) = calls \<sigma>
      \<and> runs (after_transcription i t now \<sigma>) = (runs \<sigma>)[i := Finished]
      \<and> insights (sess (after_transcription i t now \<sigma>)) = Some fallback_insights
      \<and> insights (sess (after_transcription i t now \<sigma>)) =
          Some (JObj
            [(js ''summary'',
                JStr (js ''The recording did not contain enough audible content to generate insights.'')),
             (js ''keyConcepts'', JArr []),
             (js ''flashcards'', JArr []),
             (js ''actionItems'',
                JArr [JStr (js ''Re-record the session with clearer speech.''),
                      JStr (js ''Ensure the microphone is close to the speaker.''),
                      JStr (js ''Avoid long silences during recording.'')])])
      \<and> status (sess (after_transcription i t now \<sigma>)) = Ready)
   \<and> (i < length (runs \<sigma>) \<and> runs \<sigma> ! i = AwaitWhisper \<longrightarrow>
      whisper_done i (Inr r) now \<sigma> = after_transcription i (trim r) now \<sigma>)"
proof (intro conjI impI)
  assume "20 \<le> length (trim t)"
  then show "calls (after_transcription i t now \<sigma>) = calls \<sigma> @ [InsightsChat t]"
    and "runs (after_transcription i t now \<sigma>) = (runs \<sigma>)[i := AwaitChat t]"
    and "status (sess (after_transcription i t now \<sigma>)) = Transcribed"
    by (simp_all add: after_long)
next
  assume sh: "length (trim t) < 20"
  then show "calls (after_transcription i t now \<sigma>) = calls \<sigma>"
    and "runs (after_transcription i t now \<sigma>) = (runs \<sigma>)[i := Finished]"
    and "status (sess (after_transcription i t now \<sigma>)) = Ready"
    by (simp_all add: after_short)
  from sh show f: "insights (sess (after_transcription i t now \<sigma>)) = Some fallback_insights"
    by (simp add: after_short)
  show "insights (sess (after_transcription i t now \<sigma>)) =
          Some (JObj
            [(js ''summary'',
                JStr (js ''The recording did not contain enough audible content to generate insights.'')),
             (js ''keyConcepts'', JArr []),
             (js ''flashcards'', JArr []),
             (js ''actionItems'',
                JArr [JStr (js ''Re-record the session with clearer speech.''),
                      JStr (js ''Ensure the microphone is close to the speaker.''),
                      JStr (js ''Avoid long silences during recording.'')])])"
    unfolding f fallback_insights_def ..
next
  assume "i < length (runs \<sigma>) \<and> runs \<sigma> ! i = AwaitWhisper"
  then show "whisper_done i (Inr r) now \<sigma> = after_transcription i (trim r) now \<sigma>"
    by (simp add: whisper_done_def transcript_of_reply_def)
qed

theorem short_transcript_guard_witness:
  "20 \<le> length (trim demo_transcript)
   \<and> calls (after_transcription 0 demo_transcript (js ''t1'') (create demo_upload demo_env))
       = calls (create demo_upload demo_env) @ [InsightsChat demo_transcript]
   \<and> runs (after_transcription 0 demo_transcript (js ''t1'') (create demo_upload demo_env))
       = (runs (create demo_upload demo_env))[0 := AwaitChat demo_transcript]
   \<and> length (trim (js ''um'')) < 20
   \<and> calls (after_transcription 0 (js ''um'') (js ''t1'') (create demo_upload demo_env))
       = calls (create demo_upload demo_env)
   \<and> insights (sess (after_transcription 0 (js ''um'') (js ''t1'') (create demo_upload demo_env)))
       = Some fallback_insights
   \<and> insights (sess (after_transcription 0 (js ''um'') (js ''t1'') (create demo_upload demo_env))) =
          Some (JObj
            [(js ''summary'',
                JStr (js ''The recording did not contain enough audible content to generate insights.'')),
             (js ''keyConcepts'', JArr []),
             (js ''flashcards'', JArr []),
             (js ''actionItems'',
                JArr [JStr (js ''Re-record the session with clearer speech.''),
                      JStr (js ''Ensure the microphone is close to the speaker.''),
                      JStr (js ''Avoid long silences during recording.'')])])
   \<and> status (sess (after_transcription 0 (js ''um'') (js ''t1'') (create demo_upload demo_env))) = Ready
   \<and> 0 < length (runs (create demo_upload demo_env))
   \<and> runs (create demo_upload demo_env) ! 0 = AwaitWhisper
   \<and> whisper_done 0 (Inr (js '' um '')) (js ''t1'') (create demo_upload demo_env)
       = after_transcription 0 (trim (js '' um '')) (js ''t1'') (create demo_upload demo_env)"
  using short_transcript_guard [of demo_transcript 0 "js ''t1''" "create demo_upload demo_env" "js '' um ''"]
        short_transcript_guard [of "js ''um''" 0 "js ''t1''" "create demo_upload demo_env" "js '' um ''"]
        demo_transcript_long um_short created_waits
  by blast


lemma failed_with_commit: "failed_with m (sess (commit (failed_writes m) \<sigma>))"
  by (simp add: failed_with_def failed_fields)

lemma chat_wait:
  "0 < length (runs waiting_chat) \<and> runs waiting_chat ! 0 = AwaitChat demo_transcript"
  by code_simp

lemma seven_parsed: "JSON_parse (sanitize fenced_seven) = Some seven_value"
  by code_simp

lemma seven_rejected: "InsightsSchema seven_value = None"
  by code_simp

lemma prose_not_json: "JSON_parse (sanitize (js ''Sorry, no.'')) = None"
  by code_simp

lemma no_key_precheck:
  "transcribe_precheck no_key_env (audioPath (sess (fresh (new_session demo_upload))))
     = Some (js ''Missing OPENAI_API_KEY in .env'')"
  by code_simp

text \<open>
  C4. Each failure of a run ends in the \<open>catch\<close> callback: the session is failed with
  progress 0 and a message that is not empty, the run is finished, and no further request
  is sent. The failures are a failed check before the transcription request (a missing
  key or a missing file), a rejected transcription request, and a failure of
  \<open>generateInsightsFromTranscript\<close>: a rejected chat request, a reply that is not JSON
  after sanitizing, or JSON that the schema rejects.
\<close>

theorem failure_marks_session_failed:
  "(transcribe_precheck e (audioPath (sess \<sigma>)) = Some m \<longrightarrow>
      failed_with m (sess (spawn e (Some s) \<sigma>))
      \<and> runs (spawn e (Some s) \<sigma>) = runs \<sigma> @ [Finished]
      \<and> calls (spawn e (Some s) \<sigma>) = calls \<sigma>)
   \<and> (i < length (runs \<sigma>) \<and> runs \<sigma> ! i = AwaitWhisper \<longrightarrow>
      failed_with m (sess (whisper_done i (Inl m) now \<sigma>))
      \<and> runs (whisper_done i (Inl m) now \<sigma>) = (runs \<sigma>)[i := Finished]
      \<and> calls (whisper_done i (Inl m) now \<sigma>) = calls \<sigma>)
   \<and> (i < length (runs \<sigma>) \<and> runs \<sigma> ! i = AwaitChat t \<and> insights_of_reply reply = Inl m \<longrightarrow>
      failed_with m (sess (chat_done i reply now \<sigma>))
      \<and> runs (chat_done i reply now \<sigma>) = (runs \<sigma>)[i := Finished]
      \<and> calls (chat_done i reply now \<sigma>) = calls \<sigma>)
   \<and> insights_of_reply (Inl m) = Inl m
   \<and> (JSON_parse (sanitize raw) = None \<longrightarrow>
      insights_of_reply (Inr (Some raw)) = Inl (js ''LLM returned invalid JSON''))
   \<and> (JSON_parse (sanitize raw) = Some parsed \<and> InsightsSchema parsed = None \<longrightarrow>
      insights_of_reply (Inr (Some raw)) = Inl (js ''LLM output failed schema validation''))
   \<and> (failed_with m s' \<longrightarrow> error s' \<noteq> None \<and> error s' \<noteq> Some [])"
proof (intro conjI impI)
  assume "transcribe_precheck e (audioPath (sess \<sigma>)) = Some m"
  then have sp: "spawn e (Some s) \<sigma>
      = (commit (failed_writes m) (commit start_writes \<sigma>))\<lparr>runs := runs \<sigma> @ [Finished]\<rparr>"
    by (simp add: spawn_def Let_def commit_simps writes_defs)
  show "failed_with m (sess (spawn e (Some s) \<sigma>))"
    using failed_with_commit [of m "commit start_writes \<sigma>"] by (simp add: sp)
  show "runs (spawn e (Some s) \<sigma>) = runs \<sigma> @ [Finished]" by (simp add: sp)
  show "calls (spawn e (Some s) \<sigma>) = calls \<sigma>" by (simp add: sp commit_simps)
next
  assume "i < length (runs \<sigma>) \<and> runs \<sigma> ! i = AwaitWhisper"
  then have wd: "whisper_done i (Inl m) now \<sigma>
      = (commit (failed_writes m) \<sigma>)\<lparr>runs := (runs \<sigma>)[i := Finished]\<rparr>"
    by (simp add: whisper_done_def transcript_of_reply_def)
  show "failed_with m (sess (whisper_done i (Inl m) now \<sigma>))"
    using failed_with_commit [of m \<sigma>] by (simp add: wd)
  show "runs (whisper_done i (Inl m) now \<sigma>) = (runs \<sigma>)[i := Finished]" by (simp add: wd)
  show "calls (whisper_done i (Inl m) now \<sigma>) = calls \<sigma>" by (simp add: wd commit_simps)
next
  assume "i < length (runs \<sigma>) \<and> runs \<sigma> ! i = AwaitChat t \<and> insights_of_reply reply = Inl m"
  then have cd: "chat_done i reply now \<sigma>
      = (commit (failed_writes m) \<sigma>)\<lparr>runs := (runs \<sigma>)[i := Finished]\<rparr>"
    by (simp add: chat_done_def)
  show "failed_with m (sess (chat_done i reply now \<sigma>))"
    using failed_with_commit [of m \<sigma>] by (simp add: cd)
  show "runs (chat_done i reply now \<sigma>) = (runs \<sigma>)[i := Finished]" by (simp add: cd)
  show "calls (chat_done i reply now \<sigma>) = calls \<sigma>" by (simp add: cd commit_simps)
next
  show "insights_of_reply (Inl m) = Inl m" by (simp add: insights_of_reply_def)
next
  assume "JSON_parse (sanitize raw) = None"
  then show "insights_of_reply (Inr (Some raw)) = Inl (js ''LLM returned invalid JSON'')"
    by (simp add: insights_of_reply_def)
next
  assume "JSON_parse (sanitize raw) = Some parsed \<and> InsightsSchema parsed = None"
  then show "insights_of_reply (Inr (Some raw)) = Inl (js ''LLM output failed schema validation'')"
    by (simp add: insights_of_reply_def)
next
  assume f: "failed_with m s'"
  have "js ''Unknown error'' \<noteq> []" by (simp add: js_def)
  with f show "error s' \<noteq> None" and "error s' \<noteq> Some []"
    by (auto simp: failed_with_def)
qed


theorem failure_marks_session_failed_witness:
  "transcribe_precheck no_key_env (audioPath (sess (fresh (new_session demo_upload))))
     = Some (js ''Missing OPENAI_API_KEY in .env'')
   \<and> failed_with (js ''Missing OPENAI_API_KEY in .env'')
        (sess (spawn no_key_env (Some (new_session demo_upload)) (fresh (new_session demo_upload))))
   \<and> calls (spawn no_key_env (Some (new_session demo_upload)) (fresh (new_session demo_upload)))
        = calls (fresh (new_session demo_upload))
   \<and> 0 < length (runs (create demo_upload demo_env))
   \<and> runs (create demo_upload demo_env) ! 0 = AwaitWhisper
   \<and> failed_with (js ''socket hang up'')
        (sess (whisper_done 0 (Inl (js ''socket hang up'')) (js ''t1'') (create demo_upload demo_env)))
   \<and> error (sess (whisper_done 0 (Inl (js ''socket hang up'')) (js ''t1'') (create demo_upload demo_env)))
        \<noteq> Some []
   \<and> 0 < length (runs waiting_chat) \<and> runs waiting_chat ! 0 = AwaitChat demo_transcript
   \<and> JSON_parse (sanitize (js ''Sorry, no.'')) = None
   \<and> insights_of_reply (Inr (Some (js ''Sorry, no.''))) = Inl (js ''LLM returned invalid JSON'')
   \<and> failed_with (js ''LLM returned invalid JSON'')
        (sess (chat_done 0 (Inr (Some (js ''Sorry, no.''))) (js ''t2'') waiting_chat))
   \<and> runs (chat_done 0 (Inr (Some (js ''Sorry, no.''))) (js ''t2'') waiting_chat)
        = (runs waiting_chat)[0 := Finished]
   \<and> calls (chat_done 0 (Inr (Some (js ''Sorry, no.''))) (js ''t2'') waiting_chat) = calls waiting_chat
   \<and> JSON_parse (sanitize fenced_seven) = Some seven_value \<and> InsightsSchema seven_value = None
   \<and> insights_of_reply (Inr (Some fenced_seven)) = Inl (js ''LLM output failed schema validation'')"
proof -
  note a = failure_marks_session_failed
    [of no_key_env "fresh (new_session demo_upload)" "js ''Missing OPENAI_API_KEY in .env''"
        "new_session demo_upload" 0 "js ''t1''" demo_transcript "Inr None" "js ''Sorry, no.''"
        seven_value "new_session demo_upload"]
  note b = failure_marks_session_failed
    [of demo_env "create demo_upload demo_env" "js ''socket hang up''"
        "new_session demo_upload" 0 "js ''t1''" demo_transcript "Inr None" fenced_seven seven_value
        "sess (whisper_done 0 (Inl (js ''socket hang up'')) (js ''t1'') (create demo_upload demo_env))"]
  note c = failure_marks_session_failed
    [of demo_env waiting_chat "js ''LLM returned invalid JSON''"
        "new_session demo_upload" 0 "js ''t2''" demo_transcript "Inr (Some (js ''Sorry, no.''))"
        "js ''Sorry, no.''" seven_value "new_session demo_upload"]
  from a no_key_precheck have 1:
    "failed_with (js ''Missing OPENAI_API_KEY in .env'')
        (sess (spawn no_key_env (Some (new_session demo_upload)) (fresh (new_session demo_upload))))"
    "calls (spawn no_key_env (Some (new_session demo_upload)) (fresh (new_session demo_upload)))
        = calls (fresh (new_session demo_upload))"
    by blast+
  from b created_waits have 2:
    "failed_with (js ''socket hang up'')
        (sess (whisper_done 0 (Inl (js ''socket hang up'')) (js ''t1'') (create demo_upload demo_env)))"
    by blast
  with b have 3:
    "error (sess (whisper_done 0 (Inl (js ''socket hang up'')) (js ''t1'') (create demo_upload demo_env)))
        \<noteq> Some []"
    by blast
  from c prose_not_json have 4:
    "insights_of_reply (Inr (Some (js ''Sorry, no.''))) = Inl (js ''LLM returned invalid JSON'')"
    by blast
  from c chat_wait 4 have 5:
    "failed_with (js ''LLM returned invalid JSON'')
        (sess (chat_done 0 (Inr (Some (js ''Sorry, no.''))) (js ''t2'') waiting_chat))"
    "runs (chat_done 0 (Inr (Some (js ''Sorry, no.''))) (js ''t2'') waiting_chat)
        = (runs waiting_chat)[0 := Finished]"
    "calls (chat_done 0 (Inr (Some (js ''Sorry, no.''))) (js ''t2'') waiting_chat) = calls waiting_chat"
    by blast+
  from b seven_parsed seven_rejected have 6:
    "insights_of_reply (Inr (Some fenced_seven)) = Inl (js ''LLM output failed schema validation'')"
    by blast
  show ?thesis
    using no_key_precheck created_waits chat_wait prose_not_json seven_parsed seven_rejected
      1 2 3 4 5 6
    by simp
qed


lemma demo_precheck: "transcribe_precheck demo_env (audioPath (sess done_once)) = None"
  by code_simp

lemma done_once_view:
  "(\<lambda>s. (status s, insights s)) (sess done_once) = (Ready, Some demo_value)"
  by code_simp

lemma done_once_ready:
  "status (sess done_once) = Ready \<and> insights (sess done_once) = Some demo_value"
  using done_once_view by simp

text \<open>
  C8. The reprocess handler assigns six fields of the session it found and no other: the
  status becomes \<open>processing\<close>, the progress 0, the transcript empty, and error, insights
  and processedAt \<open>null\<close>. It then calls \<open>processSession\<close> on that same session, which
  (when the key and the file are there) sends a transcription request for the audio path
  the session already had. Through the handler and everything that follows, id, audioPath,
  title, eventId and createdAt stay as they were.
\<close>

theorem reprocess_in_place:
  "sess (commit reprocess_writes \<sigma>)
     = (sess \<sigma>)\<lparr>status := Processing, progress := 0, error := None, transcript := [],
                  insights := None, processedAt := None\<rparr>
   \<and> reprocess e \<sigma> = spawn e (Some (sess (commit reprocess_writes \<sigma>))) (commit reprocess_writes \<sigma>)
   \<and> (transcribe_precheck e (audioPath (sess \<sigma>)) = None \<longrightarrow>
        calls (reprocess e \<sigma>) = calls \<sigma> @ [Transcription (audioPath (sess \<sigma>))]
        \<and> runs (reprocess e \<sigma>) = runs \<sigma> @ [AwaitWhisper]
        \<and> transcript (sess (reprocess e \<sigma>)) = [] \<and> insights (sess (reprocess e \<sigma>)) = None
        \<and> processedAt (sess (reprocess e \<sigma>)) = None \<and> error (sess (reprocess e \<sigma>)) = None
        \<and> status (sess (reprocess e \<sigma>)) = Processing)
   \<and> same_identity (sess \<sigma>) (sess (exec evs (reprocess e \<sigma>)))"
proof (intro conjI impI)
  show "sess (commit reprocess_writes \<sigma>)
     = (sess \<sigma>)\<lparr>status := Processing, progress := 0, error := None, transcript := [],
                  insights := None, processedAt := None\<rparr>"
    by (rule reprocess_reset)
  show "reprocess e \<sigma> = spawn e (Some (sess (commit reprocess_writes \<sigma>))) (commit reprocess_writes \<sigma>)"
    by (simp add: reprocess_def Let_def)
  show "same_identity (sess \<sigma>) (sess (exec evs (reprocess e \<sigma>)))"
    by (simp add: exec_identity reprocess_def Let_def spawn_identity commit_identity same_identity_refl)
next
  assume ok: "transcribe_precheck e (audioPath (sess \<sigma>)) = None"
  then show "calls (reprocess e \<sigma>) = calls \<sigma> @ [Transcription (audioPath (sess \<sigma>))]"
    and "runs (reprocess e \<sigma>) = runs \<sigma> @ [AwaitWhisper]"
    and "transcript (sess (reprocess e \<sigma>)) = []"
    and "insights (sess (reprocess e \<sigma>)) = None"
    and "processedAt (sess (reprocess e \<sigma>)) = None"
    and "error (sess (reprocess e \<sigma>)) = None"
    and "status (sess (reprocess e \<sigma>)) = Processing"
    by (simp_all add: reprocess_def spawn_def Let_def commit_simps writes_defs)
qed

theorem reprocess_in_place_witness:
  "status (sess done_once) = Ready \<and> insights (sess done_once) = Some demo_value
   \<and> transcribe_precheck demo_env (audioPath (sess done_once)) = None
   \<and> calls (reprocess demo_env done_once) = calls done_once @ [Transcription (audioPath (sess done_once))]
   \<and> runs (reprocess demo_env done_once) = runs done_once @ [AwaitWhisper]
   \<and> transcript (sess (reprocess demo_env done_once)) = []
   \<and> insights (sess (reprocess demo_env done_once)) = None
   \<and> processedAt (sess (reprocess demo_env done_once)) = None
   \<and> error (sess (reprocess demo_env done_once)) = None
   \<and> status (sess (reprocess demo_env done_once)) = Processing
   \<and> same_identity (sess done_once)
        (sess (exec [WhisperDone 1 (Inr (js ''um'')) (js ''t3'')] (reprocess demo_env done_once)))"
  using reprocess_in_place [of done_once demo_env "[WhisperDone 1 (Inr (js ''um'')) (js ''t3'')]"]
        demo_precheck done_once_ready
  by blast

lemma fallback_rejected: "InsightsSchema fallback_insights = None"
  by code_simp

lemma fallback_concepts: "get (obj_fields fallback_insights) (js ''keyConcepts'') = JArr []"
  by code_simp

lemma fallback_other_bounds:
  "string_min 20 (get (obj_fields fallback_insights) (js ''summary''))
   \<and> array_len 0 5 (get (obj_fields fallback_insights) (js ''flashcards''))
   \<and> array_len 1 5 (get (obj_fields fallback_insights) (js ''actionItems''))"
  by code_simp

text \<open>
  C9. The fallback result has an empty \<open>keyConcepts\<close> list, the schema asks for at least
  one element there, and \<open>InsightsSchema\<close> rejects the fallback result (its other three
  fields are within their bounds). A run whose transcription reply trims to fewer than 20
  code units leaves the session \<open>ready\<close> with exactly that result as its insights.
\<close>

theorem fallback_fails_schema:
  "InsightsSchema fallback_insights = None
   \<and> get (obj_fields fallback_insights) (js ''keyConcepts'') = JArr []
   \<and> \<not> array_len 1 6 (JArr [])
   \<and> string_min 20 (get (obj_fields fallback_insights) (js ''summary''))
   \<and> array_len 0 5 (get (obj_fields fallback_insights) (js ''flashcards''))
   \<and> array_len 1 5 (get (obj_fields fallback_insights) (js ''actionItems''))
   \<and> (i < length (runs \<sigma>) \<and> runs \<sigma> ! i = AwaitWhisper \<and> length (trim r) < 20 \<longrightarrow>
        status (sess (whisper_done i (Inr r) now \<sigma>)) = Ready
        \<and> insights (sess (whisper_done i (Inr r) now \<sigma>)) = Some fallback_insights)"
proof (intro conjI impI)
  assume h: "i < length (runs \<sigma>) \<and> runs \<sigma> ! i = AwaitWhisper \<and> length (trim r) < 20"
  then have w: "whisper_done i (Inr r) now \<sigma> = after_transcription i (trim r) now \<sigma>"
    by (simp add: whisper_done_def transcript_of_reply_def)
  have "trim (trim r) = trim r" by (rule trim_trimmed) (rule trimmed_trim)
  with h have short: "length (trim (trim r)) < 20" by simp
  show "status (sess (whisper_done i (Inr r) now \<sigma>)) = Ready"
    unfolding w using short by (rule after_short)
  show "insights (sess (whisper_done i (Inr r) now \<sigma>)) = Some fallback_insights"
    unfolding w using short by (rule after_short)
next
  show "\<not> array_len 1 6 (JArr [])" by (simp add: array_len_def)
qed (use fallback_rejected fallback_concepts fallback_other_bounds in blast)+

theorem fallback_fails_schema_witness:
  "0 < length (runs (create demo_upload demo_env))
   \<and> runs (create demo_upload demo_env) ! 0 = AwaitWhisper
   \<and> length (trim (js ''um'')) < 20
   \<and> status (sess (whisper_done 0 (Inr (js ''um'')) (js ''t1'') (create demo_upload demo_env))) = Ready
   \<and> insights (sess (whisper_done 0 (Inr (js ''um'')) (js ''t1'') (create demo_upload demo_env)))
       = Some fallback_insights
   \<and> InsightsSchema fallback_insights = None"
  using fallback_fails_schema [of 0 "create demo_upload demo_env" "js ''um''" "js ''t1''"]
        created_waits um_short
  by blast








lemma short_card_within: "within_bounds short_card"
  by code_simp

lemma short_card_rejected: "InsightsSchema short_card = None"
  by code_simp

text \<open>
  C2, as stated. A candidate within the four bounds is not always accepted: the schema
  also asks that each flashcard's \<open>question\<close> and \<open>answer\<close> have at least 5 code units,
  and it rejects a candidate whose one flashcard has the four-letter question \<open>Why?\<close>.
\<close>

theorem bounds_do_not_suffice:
  "within_bounds short_card \<and> InsightsSchema short_card = None"
  using short_card_within short_card_rejected by simp

text \<open>
  C2, amended. \<open>InsightsSchema\<close> rejects every value that is outside the four bounds (a
  summary of fewer than 20 code units, no key concept or more than 6, more than 5
  flashcards, no action item or more than 5, or a field that is missing or of another
  type), and it accepts exactly the values within the four bounds whose key concepts and
  action items are strings and whose flashcards are objects with a \<open>question\<close> and an
  \<open>answer\<close> of at least 5 code units each.
\<close>

theorem schema_accepts_exactly:
  "(\<not> within_bounds v \<longrightarrow> InsightsSchema v = None)
   \<and> (InsightsSchema v \<noteq> None \<longleftrightarrow> within_bounds v \<and> items_ok v)"
  using InsightsSchema_ok [of v] by blast

lemma demo_value_ok: "within_bounds demo_value \<and> items_ok demo_value"
  by code_simp

lemma seven_outside: "\<not> within_bounds seven_value"
  by code_simp

theorem schema_accepts_exactly_witness:
  "\<not> within_bounds seven_value \<and> InsightsSchema seven_value = None
   \<and> within_bounds demo_value \<and> items_ok demo_value \<and> InsightsSchema demo_value \<noteq> None"
  using schema_accepts_exactly [of seven_value] schema_accepts_exactly [of demo_value]
        demo_value_ok seven_outside
  by blast

lemma fenced_outline_inner: "JSON_parse (sanitize fenced_outline) = Some empty_outline"
  by code_simp

lemma empty_outline_ok: "OutlineSchema empty_outline \<noteq> None"
  by code_simp

lemma fenced_outline_starts: "startsWith (trim fenced_outline) fence"
  by code_simp

text \<open>
  C7, as stated. \<open>extractOutlineFromText\<close> does not strip code fences: when the reply
  is a fenced block around valid outline JSON it fails with the parse error, although the
  sanitized reply parses and satisfies the outline schema.
\<close>

theorem outline_rejects_fenced_reply:
  "fenced_chat (OutlineChat (take 20000 syllabus)) = Inr (Some fenced_outline)
   \<and> extractOutlineFromText fenced_chat syllabus = Inl (js ''Invalid outline JSON'')
   \<and> JSON_parse (sanitize fenced_outline) = Some empty_outline
   \<and> OutlineSchema empty_outline \<noteq> None"
  using fenced_outline_starts fenced_outline_inner empty_outline_ok
  by (simp add: extractOutlineFromText_def fenced_chat_def outline_of_reply_def fenced_not_json)

text \<open>
  C7, amended. \<open>extractOutlineFromText\<close> trims the reply and parses it as it is. A reply
  that starts with a code fence after trimming fails with \<open>Invalid outline JSON\<close>, and the
  call succeeds exactly when the trimmed reply parses to a value that the outline schema
  accepts, which is then the result.
\<close>

theorem outline_only_trims:
  "(chat (OutlineChat (take 20000 text)) = Inr (Some c) \<and> startsWith (trim c) fence \<longrightarrow>
      extractOutlineFromText chat text = Inl (js ''Invalid outline JSON''))
   \<and> (chat (OutlineChat (take 20000 text)) = Inr (Some c) \<longrightarrow>
      (extractOutlineFromText chat text = Inr v) = (JSON_parse (trim c) = Some v \<and> OutlineSchema v \<noteq> None))"
  by (auto simp: extractOutlineFromText_def outline_of_reply_def fenced_not_json split: option.splits)

theorem outline_only_trims_witness:
  "fenced_chat (OutlineChat (take 20000 syllabus)) = Inr (Some fenced_outline)
   \<and> startsWith (trim fenced_outline) fence
   \<and> extractOutlineFromText fenced_chat syllabus = Inl (js ''Invalid outline JSON'')
   \<and> plain_chat (OutlineChat (take 20000 syllabus)) = Inr (Some plain_outline)
   \<and> JSON_parse (trim plain_outline) = Some empty_outline \<and> OutlineSchema empty_outline \<noteq> None
   \<and> extractOutlineFromText plain_chat syllabus = Inr empty_outline"
proof -
  have p: "JSON_parse (trim plain_outline) = Some empty_outline" by code_simp
  have f: "fenced_chat (OutlineChat (take 20000 syllabus)) = Inr (Some fenced_outline)"
    by (simp add: fenced_chat_def)
  have q: "plain_chat (OutlineChat (take 20000 syllabus)) = Inr (Some plain_outline)"
    by (simp add: plain_chat_def)
  from outline_only_trims [of fenced_chat syllabus fenced_outline empty_outline]
       outline_only_trims [of plain_chat syllabus plain_outline empty_outline]
       fenced_outline_starts p empty_outline_ok f q
  show ?thesis by blast
qed

lemma overlap_hist_view:
  "map (\<lambda>s. (status s, progress s)) overlap_hist
     = [(Processing, 0), (Processing, 10), (Processing, 10), (Processing, 10), (Processing, 60),
        (Transcribed, 60), (Processing, 60), (Processing, 0), (Processing, 0), (Processing, 0),
        (Processing, 0), (Processing, 0),
        (Processing, 10), (Processing, 10), (Processing, 10), (Processing, 100), (Ready, 100),
        (Ready, 100), (Ready, 100), (Ready, 60), (Transcribed, 60), (Transcribed, 60),
        (Transcribed, 100), (Ready, 100), (Ready, 100)]"
  by code_simp

text \<open>
  C3, as stated. A reprocess request is served while the first run waits for its chat
  reply. The first run then finishes and makes the session \<open>ready\<close> with progress 100;
  after that the second run, which succeeds, receives its transcript and sets the progress
  to 60 and the status to \<open>transcribed\<close>. The second run begins at position 12 of the
  history of the session.
\<close>

theorem overlap_breaks_state_machine:
  "status (overlap_hist ! 19) = Ready \<and> status (overlap_hist ! 20) = Transcribed
   \<and> \<not> step_ok (status (overlap_hist ! 19)) (status (overlap_hist ! 20))
   \<and> progress (overlap_hist ! 18) = 100 \<and> progress (overlap_hist ! 19) = 60
   \<and> \<not> sorted (map progress (drop 12 overlap_hist))
   \<and> status (last overlap_hist) = Ready"
proof -
  let ?f = "\<lambda>s. (status s, progress s)"
  note v = overlap_hist_view
  have len: "length overlap_hist = 25" using arg_cong [OF v, of length] by simp
  have n18: "?f (overlap_hist ! 18) = (Ready, 100)"
    using nth_map [of 18 overlap_hist ?f] len unfolding v by simp
  have n19: "?f (overlap_hist ! 19) = (Ready, 60)"
    using nth_map [of 19 overlap_hist ?f] len unfolding v by simp
  have n20: "?f (overlap_hist ! 20) = (Transcribed, 60)"
    using nth_map [of 20 overlap_hist ?f] len unfolding v by simp
  have ne: "overlap_hist \<noteq> []" using len by auto
  have l: "?f (last overlap_hist) = (Ready, 100)"
    using last_map [OF ne, of ?f] unfolding v by simp
  have "map progress (drop 12 overlap_hist) = map snd (drop 12 (map ?f overlap_hist))"
    by (simp add: drop_map)
  then have ns: "\<not> sorted (map progress (drop 12 overlap_hist))"
    unfolding v by simp
  show ?thesis using n18 n19 n20 l ns by (simp add: step_ok_def)
qed

text \<open>
  C3, amended. Whatever runs overlap, from the upload on the progress of a session is one
  of 0, 10, 60 and 100 after every assignment, and every failure of a run, in whatever
  state it finds the session, leaves the status \<open>failed\<close> and the progress 0. Now take a
  run that nothing else interferes with, started as both handlers start it, on a session
  that is \<open>processing\<close> with progress 0. From one assignment to the next the status stays
  as it is, goes from \<open>processing\<close> to \<open>transcribed\<close>, from \<open>transcribed\<close> to
  \<open>ready\<close>, or becomes \<open>failed\<close>; the progress is always one of 0, 10, 60 and 100; the
  run ends \<open>ready\<close> or \<open>failed\<close>; when it ends \<open>ready\<close> the progress never went down,
  and when it ends \<open>failed\<close> the progress is 0.
\<close>

theorem lone_run_follows_state_machine:
  "list_all (\<lambda>x. progress x \<in> {0, 10, 60, 100}) (hist (exec evs (create u e)))
   \<and> (transcribe_precheck e (audioPath (sess \<sigma>)) = Some m \<longrightarrow>
        status (sess (spawn e (Some s') \<sigma>)) = Failed \<and> progress (sess (spawn e (Some s') \<sigma>)) = 0)
   \<and> (i < length (runs \<sigma>) \<and> runs \<sigma> ! i = AwaitWhisper \<longrightarrow>
        status (sess (whisper_done i (Inl m) now \<sigma>)) = Failed
        \<and> progress (sess (whisper_done i (Inl m) now \<sigma>)) = 0)
   \<and> (i < length (runs \<sigma>) \<and> runs \<sigma> ! i = AwaitChat t \<and> insights_of_reply reply = Inl m \<longrightarrow>
        status (sess (chat_done i reply now \<sigma>)) = Failed
        \<and> progress (sess (chat_done i reply now \<sigma>)) = 0)
   \<and> (status s = Processing \<and> progress s = 0 \<longrightarrow>
        successively (\<lambda>a b. step_ok (status a) (status b)) (run_alone e wr n1 cr n2 s)
        \<and> list_all (\<lambda>x. progress x \<in> {0, 10, 60, 100}) (run_alone e wr n1 cr n2 s)
        \<and> status (last (run_alone e wr n1 cr n2 s)) \<in> {Ready, Failed}
        \<and> (status (last (run_alone e wr n1 cr n2 s)) = Ready \<longrightarrow>
             sorted (map progress (run_alone e wr n1 cr n2 s)))
        \<and> (status (last (run_alone e wr n1 cr n2 s)) = Failed \<longrightarrow>
             progress (last (run_alone e wr n1 cr n2 s)) = 0))"
proof (intro conjI)
  have "progress_ok (exec evs (create u e))"
    using progress_ok_create by (rule progress_ok_exec)
  then show "list_all (\<lambda>x. progress x \<in> {0, 10, 60, 100}) (hist (exec evs (create u e)))"
    by (simp add: progress_ok_def)
next
  show "transcribe_precheck e (audioPath (sess \<sigma>)) = Some m \<longrightarrow>
        status (sess (spawn e (Some s') \<sigma>)) = Failed \<and> progress (sess (spawn e (Some s') \<sigma>)) = 0"
    by (simp add: spawn_def Let_def commit_simps writes_defs)
next
  show "i < length (runs \<sigma>) \<and> runs \<sigma> ! i = AwaitWhisper \<longrightarrow>
        status (sess (whisper_done i (Inl m) now \<sigma>)) = Failed
        \<and> progress (sess (whisper_done i (Inl m) now \<sigma>)) = 0"
    by (simp add: whisper_done_def transcript_of_reply_def failed_fields)
next
  show "i < length (runs \<sigma>) \<and> runs \<sigma> ! i = AwaitChat t \<and> insights_of_reply reply = Inl m \<longrightarrow>
        status (sess (chat_done i reply now \<sigma>)) = Failed
        \<and> progress (sess (chat_done i reply now \<sigma>)) = 0"
    by (simp add: chat_done_def failed_fields)
next
  show "status s = Processing \<and> progress s = 0 \<longrightarrow>
        successively (\<lambda>a b. step_ok (status a) (status b)) (run_alone e wr n1 cr n2 s)
        \<and> list_all (\<lambda>x. progress x \<in> {0, 10, 60, 100}) (run_alone e wr n1 cr n2 s)
        \<and> status (last (run_alone e wr n1 cr n2 s)) \<in> {Ready, Failed}
        \<and> (status (last (run_alone e wr n1 cr n2 s)) = Ready \<longrightarrow>
             sorted (map progress (run_alone e wr n1 cr n2 s)))
        \<and> (status (last (run_alone e wr n1 cr n2 s)) = Failed \<longrightarrow>
             progress (last (run_alone e wr n1 cr n2 s)) = 0)"
    using run_alone_cases [of s e wr n1 cr n2] by blast
qed

lemma prose_reply_fails:
  "insights_of_reply (Inr (Some (js ''Sorry, no.''))) = Inl (js ''LLM returned invalid JSON'')"
  by (simp add: insights_of_reply_def prose_not_json)

lemma new_session_start:
  "status (new_session demo_upload) = Processing \<and> progress (new_session demo_upload) = 0"
  by code_simp

lemma lone_run_ready:
  "status (last (run_alone demo_env (Inr demo_transcript) (js ''t1'') (Inr (Some demo_reply)) (js ''t2'')
      (new_session demo_upload))) = Ready"
  by code_simp

lemma lone_run_failed:
  "status (last (run_alone demo_env (Inl (js ''socket hang up'')) (js ''t1'') (Inr (Some demo_reply)) (js ''t2'')
      (new_session demo_upload))) = Failed"
  by code_simp

theorem lone_run_follows_state_machine_witness:
  "list_all (\<lambda>x. progress x \<in> {0, 10, 60, 100}) (hist (exec overlap_finished (create demo_upload demo_env)))
   \<and> transcribe_precheck no_key_env (audioPath (sess (fresh (new_session demo_upload))))
        = Some (js ''Missing OPENAI_API_KEY in .env'')
   \<and> status (sess (spawn no_key_env (Some (new_session demo_upload)) (fresh (new_session demo_upload))))
        = Failed
   \<and> progress (sess (spawn no_key_env (Some (new_session demo_upload)) (fresh (new_session demo_upload))))
        = 0
   \<and> 0 < length (runs (create demo_upload demo_env))
   \<and> runs (create demo_upload demo_env) ! 0 = AwaitWhisper
   \<and> status (sess (whisper_done 0 (Inl (js ''socket hang up'')) (js ''t1'') (create demo_upload demo_env)))
        = Failed
   \<and> progress (sess (whisper_done 0 (Inl (js ''socket hang up'')) (js ''t1'') (create demo_upload demo_env)))
        = 0
   \<and> 0 < length (runs waiting_chat) \<and> runs waiting_chat ! 0 = AwaitChat demo_transcript
   \<and> insights_of_reply (Inr (Some (js ''Sorry, no.''))) = Inl (js ''LLM returned invalid JSON'')
   \<and> status (sess (chat_done 0 (Inr (Some (js ''Sorry, no.''))) (js ''t2'') waiting_chat)) = Failed
   \<and> progress (sess (chat_done 0 (Inr (Some (js ''Sorry, no.''))) (js ''t2'') waiting_chat)) = 0
   \<and> status (new_session demo_upload) = Processing \<and> progress (new_session demo_upload) = 0
   \<and> successively (\<lambda>a b. step_ok (status a) (status b))
        (run_alone demo_env (Inr demo_transcript) (js ''t1'') (Inr (Some demo_reply)) (js ''t2'')
           (new_session demo_upload))
   \<and> status (last (run_alone demo_env (Inr demo_transcript) (js ''t1'') (Inr (Some demo_reply)) (js ''t2'')
        (new_session demo_upload))) = Ready
   \<and> sorted (map progress
        (run_alone demo_env (Inr demo_transcript) (js ''t1'') (Inr (Some demo_reply)) (js ''t2'')
           (new_session demo_upload)))
   \<and> status (last (run_alone demo_env (Inl (js ''socket hang up'')) (js ''t1'') (Inr (Some demo_reply))
        (js ''t2'') (new_session demo_upload))) = Failed
   \<and> progress (last (run_alone demo_env (Inl (js ''socket hang up'')) (js ''t1'') (Inr (Some demo_reply))
        (js ''t2'') (new_session demo_upload))) = 0"
proof -
  note a = lone_run_follows_state_machine
    [where evs = overlap_finished and u = demo_upload and e = demo_env
       and \<sigma> = "create demo_upload demo_env" and m = "js ''socket hang up''" and i = 0
       and now = "js ''t1''" and s = "new_session demo_upload" and wr = "Inr demo_transcript"
       and ?n1.0 = "js ''t1''" and cr = "Inr (Some demo_reply)" and ?n2.0 = "js ''t2''"]
  note b = lone_run_follows_state_machine
    [where e = no_key_env and \<sigma> = "fresh (new_session demo_upload)"
       and m = "js ''Missing OPENAI_API_KEY in .env''" and s' = "new_session demo_upload"]
  note c = lone_run_follows_state_machine
    [where \<sigma> = waiting_chat and i = 0 and t = demo_transcript
       and reply = "Inr (Some (js ''Sorry, no.''))" and m = "js ''LLM returned invalid JSON''"
       and now = "js ''t2''"]
  note d = lone_run_follows_state_machine
    [where e = demo_env and s = "new_session demo_upload" and wr = "Inl (js ''socket hang up'')"
       and ?n1.0 = "js ''t1''" and cr = "Inr (Some demo_reply)" and ?n2.0 = "js ''t2''"]
  from a have 1:
    "list_all (\<lambda>x. progress x \<in> {0, 10, 60, 100}) (hist (exec overlap_finished (create demo_upload demo_env)))"
    by blast
  from b no_key_precheck have 2:
    "status (sess (spawn no_key_env (Some (new_session demo_upload)) (fresh (new_session demo_upload))))
        = Failed"
    "progress (sess (spawn no_key_env (Some (new_session demo_upload)) (fresh (new_session demo_upload))))
        = 0"
    by blast+
  from a created_waits have 3:
    "status (sess (whisper_done 0 (Inl (js ''socket hang up'')) (js ''t1'') (create demo_upload demo_env)))
        = Failed"
    "progress (sess (whisper_done 0 (Inl (js ''socket hang up'')) (js ''t1'') (create demo_upload demo_env)))
        = 0"
    by blast+
  from c chat_wait prose_reply_fails have 4:
    "status (sess (chat_done 0 (Inr (Some (js ''Sorry, no.''))) (js ''t2'') waiting_chat)) = Failed"
    "progress (sess (chat_done 0 (Inr (Some (js ''Sorry, no.''))) (js ''t2'') waiting_chat)) = 0"
    by blast+
  from a new_session_start lone_run_ready have 5:
    "successively (\<lambda>a b. step_ok (status a) (status b))
        (run_alone demo_env (Inr demo_transcript) (js ''t1'') (Inr (Some demo_reply)) (js ''t2'')
           (new_session demo_upload))"
    "sorted (map progress
        (run_alone demo_env (Inr demo_transcript) (js ''t1'') (Inr (Some demo_reply)) (js ''t2'')
           (new_session demo_upload)))"
    by blast+
  from d new_session_start lone_run_failed have 6:
    "progress (last (run_alone demo_env (Inl (js ''socket hang up'')) (js ''t1'') (Inr (Some demo_reply))
        (js ''t2'') (new_session demo_upload))) = 0"
    by blast
  show ?thesis
    using 1 2 3 4 5 6 no_key_precheck created_waits chat_wait prose_reply_fails new_session_start
      lone_run_ready lone_run_failed
    by blast
qed

lemma overlap_view:
  "(\<lambda>s. (status s, insights s)) (sess (exec overlap (create demo_upload demo_env)))
     = (Transcribed, Some demo_value)"
  by code_simp

lemma overlap_state:
  "status (sess (exec overlap (create demo_upload demo_env))) = Transcribed
   \<and> insights (sess (exec overlap (create demo_upload demo_env))) = Some demo_value"
  using overlap_view by simp

text \<open>
  C6, as stated. With the same overlap of two runs, after the second run has received its
  transcript the session is at rest with status \<open>transcribed\<close> and with the insights that
  the first run stored.
\<close>

theorem overlap_breaks_insights_iff_ready:
  "status (sess (exec overlap (create demo_upload demo_env))) = Transcribed
   \<and> insights (sess (exec overlap (create demo_upload demo_env))) = Some demo_value
   \<and> \<not> at_rest_ok (sess (exec overlap (create demo_upload demo_env)))"
  using overlap_state by (simp add: at_rest_ok_def)

text \<open>
  C6, amended. Start from an upload and let replies and reprocess requests arrive.
  Whatever runs overlap, after the upload handler and after each event a session whose
  status is \<open>ready\<close> has insights. When moreover each reprocess request finds every
  earlier run finished, then after the upload handler and after each event the session has
  insights exactly when its status is \<open>ready\<close>.
\<close>

theorem serial_insights_iff_ready:
  "(status (sess (exec evs (create u e))) = Ready \<longrightarrow> insights (sess (exec evs (create u e))) \<noteq> None)
   \<and> (serial evs (create u e) \<longrightarrow>
        (insights (sess (exec (take n evs) (create u e))) \<noteq> None)
          = (status (sess (exec (take n evs) (create u e))) = Ready))"
proof (intro conjI impI)
  assume r: "status (sess (exec evs (create u e))) = Ready"
  have "ready_has_insights (sess (exec evs (create u e)))"
    using ready_create by (rule ready_exec)
  with r show "insights (sess (exec evs (create u e))) \<noteq> None"
    by (simp add: ready_has_insights_def)
next
  assume "serial evs (create u e)"
  then have "serial (take n evs) (create u e)" by (rule serial_take)
  with rest_inv_create have "rest_inv (exec (take n evs) (create u e))" by (rule rest_inv_exec)
  then have "at_rest_ok (sess (exec (take n evs) (create u e)))" by (rule rest_inv_at_rest)
  then show "(insights (sess (exec (take n evs) (create u e))) \<noteq> None)
       = (status (sess (exec (take n evs) (create u e))) = Ready)"
    by (simp add: at_rest_ok_def)
qed

lemma in_turn_serial: "serial in_turn (create demo_upload demo_env)"
  by code_simp

lemma in_turn_end: "status (sess (exec (take 4 in_turn) (create demo_upload demo_env))) = Ready"
  by code_simp

lemma in_turn_mid: "status (sess (exec (take 3 in_turn) (create demo_upload demo_env))) = Processing"
  by code_simp

lemma overlap_finished_ready:
  "status (sess (exec overlap_finished (create demo_upload demo_env))) = Ready"
  by code_simp

theorem serial_insights_iff_ready_witness:
  "status (sess (exec overlap_finished (create demo_upload demo_env))) = Ready
   \<and> insights (sess (exec overlap_finished (create demo_upload demo_env))) \<noteq> None
   \<and> serial in_turn (create demo_upload demo_env)
   \<and> status (sess (exec (take 4 in_turn) (create demo_upload demo_env))) = Ready
   \<and> insights (sess (exec (take 4 in_turn) (create demo_upload demo_env))) \<noteq> None
   \<and> status (sess (exec (take 3 in_turn) (create demo_upload demo_env))) = Processing
   \<and> insights (sess (exec (take 3 in_turn) (create demo_upload demo_env))) = None"
  using serial_insights_iff_ready [of overlap_finished demo_upload demo_env 4]
        serial_insights_iff_ready [of in_turn demo_upload demo_env 4]
        serial_insights_iff_ready [of in_turn demo_upload demo_env 3]
        in_turn_serial in_turn_end in_turn_mid overlap_finished_ready
  by simp

end
